theory Spec2Isabelle
  imports Main
begin

section \<open>Strings and numbers of the JavaScript source\<close>

text \<open>
  A JavaScript string is modelled as a \<^typ>\<open>string\<close>, one \<^typ>\<open>char\<close> per code unit.
  Array indices and occurrence counts are non-negative integers far below \<open>2^53\<close>, where
  the arithmetic of JavaScript numbers is exact; they are modelled as \<^typ>\<open>nat\<close>.
\<close>

text \<open>Number to string conversion of a non-negative integer: its decimal digits.\<close>

definition digit_char :: "nat \<Rightarrow> char" where
  "digit_char d = char_of (48 + d)"

function string_of_nat :: "nat \<Rightarrow> string" where
  "string_of_nat n =
     (if n < 10 then [digit_char n] else string_of_nat (n div 10) @ [digit_char (n mod 10)])"
  by pat_completeness auto
termination
  by (relation "measure id") auto

declare string_of_nat.simps [simp del]

section \<open>The shortest-name generator\<close>

text \<open>
  \<^verbatim>\<open>function range(s, e) { let a = []; for (let i = s; i < e; i++) { a.push(i) }; return a }\<close>
\<close>

function range :: "nat \<Rightarrow> nat \<Rightarrow> nat list" where
  "range s e = (if s < e then s # range (s + 1) e else [])"
  by pat_completeness auto
termination
  by (relation "measure (\<lambda>(s, e). e - s)") auto

declare range.simps [simp del]

text \<open>\<^verbatim>\<open>const ascii = range(97, 123).map(c => String.fromCharCode(c))\<close>\<close>

definition ascii :: "string list" where
  "ascii = map (\<lambda>c. [char_of c]) (range 97 123)"

lemma range_upt: "range s e = [s..<e]"
proof (induction s e rule: range.induct)
  case (1 s e)
  show ?case
  proof (cases "s < e")
    case True
    with "1" show ?thesis
      by (subst range.simps) (simp add: upt_conv_Cons)
  next
    case False
    then show ?thesis
      by (subst range.simps) simp
  qed
qed

lemma length_ascii: "length ascii = 26"
  by (simp add: ascii_def range_upt)

text \<open>
  \<^verbatim>\<open>let timesOver = 0
  while (idx >= ascii.length) { timesOver++; idx -= ascii.length }\<close>
  The loop, returning the final \<open>idx\<close> and \<open>timesOver\<close>.
\<close>

function times_over_loop :: "nat \<Rightarrow> nat \<Rightarrow> nat \<times> nat" where
  "times_over_loop idx timesOver =
     (if idx \<ge> length ascii then times_over_loop (idx - length ascii) (timesOver + 1)
      else (idx, timesOver))"
  by pat_completeness auto
termination
  by (relation "measure fst") (auto simp: length_ascii)

declare times_over_loop.simps [simp del]

text \<open>
  \<^verbatim>\<open>if (timesOver) { return ascii[idx] + (timesOver - 1) }
  return ascii[idx]\<close>
  After the loop \<open>idx < ascii.length\<close>, so \<open>ascii[idx]\<close> is always a letter.
\<close>

definition generateShortestName :: "nat \<Rightarrow> string" where
  "generateShortestName idx0 =
     (case times_over_loop idx0 0 of
        (idx, timesOver) \<Rightarrow>
          if timesOver \<noteq> 0 then ascii ! idx @ string_of_nat (timesOver - 1)
          else ascii ! idx)"

section \<open>Plain objects, the \<open>in\<close> operator and property access\<close>

text \<open>
  \<^verbatim>\<open>classnames\<close> and \<^verbatim>\<open>rename\<close> are plain objects used as dictionaries. A plain object
  is modelled by the list of its own properties in creation order. Its prototype is
  \<^verbatim>\<open>Object.prototype\<close>, so \<^verbatim>\<open>k in obj\<close> and \<^verbatim>\<open>obj[k]\<close> also see the properties that
  \<^verbatim>\<open>Object.prototype\<close> has: the built-in ones below and, once some code has assigned it,
  \<^verbatim>\<open>Object.prototype.count\<close> (the flag \<open>pc\<close> of the functions below).
\<close>

definition object_prototype_keys :: "string list" where
  "object_prototype_keys =
     [''constructor'', ''__defineGetter__'', ''__defineSetter__'', ''hasOwnProperty'',
      ''__lookupGetter__'', ''__lookupSetter__'', ''isPrototypeOf'', ''propertyIsEnumerable'',
      ''toString'', ''valueOf'', ''__proto__'', ''toLocaleString'']"

definition inherited :: "bool \<Rightarrow> string \<Rightarrow> bool" where
  "inherited pc k = (k \<in> set object_prototype_keys \<or> (pc \<and> k = ''count''))"

text \<open>\<^verbatim>\<open>k in obj\<close>\<close>

definition js_in :: "bool \<Rightarrow> (string \<times> 'v) list \<Rightarrow> string \<Rightarrow> bool" where
  "js_in pc obj k = (k \<in> set (map fst obj) \<or> inherited pc k)"

text \<open>
  \<^verbatim>\<open>obj[k] = v\<close> on an own or absent property: the value is replaced in place, or the
  property is created last.
\<close>

fun set_own :: "string \<Rightarrow> 'v \<Rightarrow> (string \<times> 'v) list \<Rightarrow> (string \<times> 'v) list" where
  "set_own k v [] = [(k, v)]"
| "set_own k v (p # ps) = (if fst p = k then (k, v) # ps else p # set_own k v ps)"

text \<open>
  \<^verbatim>\<open>Object.entries(obj)\<close> lists the own properties: first the keys that are array indices
  (decimal numerals without a leading zero, of a number below \<open>2^32 - 1\<close>) in ascending
  numeric order, then the other keys in creation order.
\<close>

definition is_digit :: "char \<Rightarrow> bool" where
  "is_digit c = (48 \<le> (of_char c :: nat) \<and> (of_char c :: nat) \<le> 57)"

definition int_of_digits :: "string \<Rightarrow> int" where
  "int_of_digits s = foldl (\<lambda>n c. 10 * n + (int (of_char c) - 48)) 0 s"

definition is_array_index :: "string \<Rightarrow> bool" where
  "is_array_index s =
     (s \<noteq> [] \<and> list_all is_digit s \<and> (if hd s = CHR ''0'' then s = ''0'' else True)
      \<and> int_of_digits s < 4294967295)"

definition object_entries :: "(string \<times> 'v) list \<Rightarrow> (string \<times> 'v) list" where
  "object_entries obj =
     sort_key (\<lambda>p. int_of_digits (fst p)) (filter (\<lambda>p. is_array_index (fst p)) obj)
     @ filter (\<lambda>p. \<not> is_array_index (fst p)) obj"

section \<open>The HTML tree and the classname counter\<close>

text \<open>
  A node of the parsed HTML: \<open>classNames\<close> is the array of class tokens of an element
  (\<open>None\<close> for a node that has no such property, a text node), \<open>class_attr\<close> the value of its
  \<^verbatim>\<open>class\<close> attribute as serialized by \<^verbatim>\<open>toString()\<close>, \<open>childNodes\<close> the children in order.
\<close>

datatype html_node =
  HTMLNode (classNames: "string list option") (class_attr: "string option")
    (childNodes: "html_node list")

text \<open>
  The state the counting passes of \<^verbatim>\<open>styleripper.js\<close> work on: the own properties of
  \<^verbatim>\<open>classnames\<close>, each \<^verbatim>\<open>{ count: n }\<close> kept as \<open>n\<close>, and whether
  \<^verbatim>\<open>Object.prototype.count\<close> exists.
\<close>

record heap =
  classnames :: "(string \<times> nat) list"
  prototype_count :: bool

definition has_classname :: "heap \<Rightarrow> string \<Rightarrow> bool" where
  "has_classname h k = js_in (prototype_count h) (classnames h) k"

text \<open>
  \<^verbatim>\<open>classnames[k].count++\<close>, reached only when \<^verbatim>\<open>k in classnames\<close>. For an own property the
  count goes up by one. Otherwise \<^verbatim>\<open>classnames[k]\<close> is a property of \<^verbatim>\<open>Object.prototype\<close>:
  for \<^verbatim>\<open>__proto__\<close> it is \<^verbatim>\<open>Object.prototype\<close> itself, which receives the property
  \<^verbatim>\<open>count\<close> (with value NaN); for the others it is a built-in function, or the number NaN,
  and \<^verbatim>\<open>classnames\<close> and \<^verbatim>\<open>Object.prototype\<close> stay as they are.
\<close>

definition increment_count :: "heap \<Rightarrow> string \<Rightarrow> heap" where
  "increment_count h k =
     (case map_of (classnames h) k of
        Some c \<Rightarrow> h\<lparr>classnames := set_own k (c + 1) (classnames h)\<rparr>
      | None \<Rightarrow> if k = ''__proto__'' then h\<lparr>prototype_count := True\<rparr> else h)"

text \<open>
  \<^verbatim>\<open>for (const className of node.classNames) {
    if (className in classnames) { classnames[className].count++; continue }
    classnames[className] = { count: 1 } }\<close>
\<close>

fun count_classNames :: "heap \<Rightarrow> string list \<Rightarrow> heap" where
  "count_classNames h [] = h"
| "count_classNames h (className # rest) =
     count_classNames
       (if has_classname h className then increment_count h className
        else h\<lparr>classnames := set_own className 1 (classnames h)\<rparr>)
       rest"

fun parseHTMLNodeChildren :: "heap \<Rightarrow> html_node \<Rightarrow> heap" where
  "parseHTMLNodeChildren h (HTMLNode cn a ch) =
     fold (\<lambda>child h'. parseHTMLNodeChildren h' child) ch
       (case cn of Some cs \<Rightarrow> count_classNames h cs | None \<Rightarrow> h)"

text \<open>
  The copy of the counter in the TypeScript source keeps the counts as numbers:
  \<^verbatim>\<open>if (className in nodes) { nodes[className]++; continue }
  nodes[className] = 1\<close>
  \<^verbatim>\<open>nodes[k]++\<close> on an own number adds one; on a property inherited from
  \<^verbatim>\<open>Object.prototype\<close> it reads a function, whose numeric value is NaN, and stores NaN as an
  own property (the setter of \<^verbatim>\<open>__proto__\<close> ignores the number).
\<close>

datatype jsnum = Num nat | NaN

definition has_node :: "(string \<times> jsnum) list \<Rightarrow> string \<Rightarrow> bool" where
  "has_node nodes k = js_in False nodes k"

definition increment_node :: "(string \<times> jsnum) list \<Rightarrow> string \<Rightarrow> (string \<times> jsnum) list" where
  "increment_node nodes k =
     (case map_of nodes k of
        Some (Num n) \<Rightarrow> set_own k (Num (n + 1)) nodes
      | Some NaN \<Rightarrow> nodes
      | None \<Rightarrow> if k = ''__proto__'' then nodes else set_own k NaN nodes)"

fun count_classNames_ts :: "(string \<times> jsnum) list \<Rightarrow> string list \<Rightarrow> (string \<times> jsnum) list" where
  "count_classNames_ts nodes [] = nodes"
| "count_classNames_ts nodes (className # rest) =
     count_classNames_ts
       (if has_node nodes className then increment_node nodes className
        else set_own className (Num 1) nodes)
       rest"

fun parseHTMLNodeChildren_ts :: "(string \<times> jsnum) list \<Rightarrow> html_node \<Rightarrow> (string \<times> jsnum) list" where
  "parseHTMLNodeChildren_ts nodes (HTMLNode cn a ch) =
     fold (\<lambda>child nodes'. parseHTMLNodeChildren_ts nodes' child) ch
       (case cn of Some cs \<Rightarrow> count_classNames_ts nodes cs | None \<Rightarrow> nodes)"

section \<open>The CSS tree\<close>

text \<open>\<^verbatim>\<open>function cleanCSSIdentifier(n) { return n.replace(/\\/g, '') }\<close>\<close>

definition cleanCSSIdentifier :: "string \<Rightarrow> string" where
  "cleanCSSIdentifier n = filter (\<lambda>c. c \<noteq> CHR 0x5C) n"

text \<open>
  The nodes of the parsed stylesheet that the source distinguishes. A selector is the list
  of its components; a component is a class selector, a pseudo-class selector (whose
  arguments, as in \<^verbatim>\<open>:not(.a, .b)\<close>, are selectors again) or any other component, kept
  with its node type and text. The prelude of a rule is a selector list, or raw text when
  the selector did not parse; \<open>NoPrelude\<close> stands for an absent prelude, which the
  TypeScript source tests for. The children of a stylesheet, of the block of a rule and of
  the block of an at-rule are node lists.
\<close>

datatype css_component =
    ClassSelector string
  | PseudoClassSelector string "css_component list list"
  | OtherComponent string string

type_synonym css_selector = "css_component list"

datatype css_prelude = SelectorList "css_selector list" | Raw string | NoPrelude

datatype css_node =
    Rule css_prelude "css_node list"
  | Atrule string "css_node list"
  | Declaration string
  | Comment string

datatype error =
    TypeError \<comment> \<open>a property of \<^verbatim>\<open>undefined\<close> or \<^verbatim>\<open>null\<close> is read\<close>
  | ItemNotInList \<comment> \<open>\<^verbatim>\<open>list.remove(item)\<close> for an item that is not in the list\<close>
  | UnusedClassSelector \<comment> \<open>the error \<^verbatim>\<open>parseCSS\<close> throws itself\<close>

section \<open>Dead-rule elimination\<close>

text \<open>
  The test of line 80, negated: the component is a class selector whose cleaned name is
  not \<^verbatim>\<open>in\<close> the classnames (\<open>known\<close> is that test).
\<close>

definition is_unused :: "(string \<Rightarrow> bool) \<Rightarrow> css_component \<Rightarrow> bool" where
  "is_unused known s =
     (case s of ClassSelector n \<Rightarrow> \<not> known (cleanCSSIdentifier n) | _ \<Rightarrow> False)"

text \<open>
  \<^verbatim>\<open>selector.children.each((s) => {
    if (s.type !== 'ClassSelector' || cleanCSSIdentifier(s.name) in classnames) { return }
    list.remove(item) })\<close>
  Here \<^verbatim>\<open>item\<close> and \<^verbatim>\<open>list\<close> are those of the enclosing loop: the selector and the
  selector list of the rule. \<open>present\<close> says whether the selector is still in the list;
  removing an item that is no longer in its list is an error of the list.
\<close>

fun remove_item :: "bool \<Rightarrow> error + bool" where
  "remove_item present = (if present then Inr False else Inl ItemNotInList)"

fun each_component :: "(string \<Rightarrow> bool) \<Rightarrow> css_selector \<Rightarrow> bool \<Rightarrow> error + bool" where
  "each_component known [] present = Inr present"
| "each_component known (s # ss) present =
     (if \<not> is_unused known s then each_component known ss present
      else case remove_item present of
             Inl e \<Rightarrow> Inl e
           | Inr present' \<Rightarrow> each_component known ss present')"

text \<open>
  \<^verbatim>\<open>node.prelude.children.each((selector, item, list) => {
    selector.children.each(...)
    if (list.isEmpty()) { parentList.remove(parentItem) } })\<close>
  \<open>kept\<close> are the selectors visited so far that are still in the list, the third argument
  the selectors still to visit, \<open>rule_present\<close> whether the rule is still in its parent
  list. The result is the final selector list and whether the rule is still there.
\<close>

fun each_selector ::
  "(string \<Rightarrow> bool) \<Rightarrow> css_selector list \<Rightarrow> css_selector list \<Rightarrow> bool
    \<Rightarrow> error + (css_selector list \<times> bool)" where
  "each_selector known kept [] rule_present = Inr (kept, rule_present)"
| "each_selector known kept (selector # rest) rule_present =
     (case each_component known selector True of
        Inl e \<Rightarrow> Inl e
      | Inr present \<Rightarrow>
          let kept' = (if present then kept @ [selector] else kept) in
          if kept' = [] \<and> rest = [] then
            (case remove_item rule_present of
               Inl e \<Rightarrow> Inl e
             | Inr rule_present' \<Rightarrow> each_selector known kept' rest rule_present')
          else each_selector known kept' rest rule_present)"

text \<open>The callback of the walk for one rule; a prelude without \<^verbatim>\<open>children\<close> is a TypeError.\<close>

fun enter_rule :: "(string \<Rightarrow> bool) \<Rightarrow> css_prelude \<Rightarrow> error + (css_prelude \<times> bool)" where
  "enter_rule known (SelectorList sels) =
     (case each_selector known [] sels True of
        Inl e \<Rightarrow> Inl e
      | Inr (sels', rule_present) \<Rightarrow> Inr (SelectorList sels', rule_present))"
| "enter_rule known (Raw v) = Inl TypeError"
| "enter_rule known NoPrelude = Inl TypeError"

text \<open>
  \<^verbatim>\<open>csstree.walk(ast, { visit: 'Rule', enter: function (node, parentItem, parentList) {...} })\<close>
  The walk visits the rules in document order, a rule before the nodes of its block, and
  goes on into the block of a rule that its callback has removed.
\<close>

function removeUnused :: "(string \<Rightarrow> bool) \<Rightarrow> css_node list \<Rightarrow> error + css_node list" where
  "removeUnused known [] = Inr []"
| "removeUnused known (Rule prelude block # ns) =
     (case enter_rule known prelude of
        Inl e \<Rightarrow> Inl e
      | Inr (prelude', rule_present) \<Rightarrow>
          (case removeUnused known block of
             Inl e \<Rightarrow> Inl e
           | Inr block' \<Rightarrow>
               (case removeUnused known ns of
                  Inl e \<Rightarrow> Inl e
                | Inr ns' \<Rightarrow>
                    Inr (if rule_present then Rule prelude' block' # ns' else ns'))))"
| "removeUnused known (Atrule name block # ns) =
     (case removeUnused known block of
        Inl e \<Rightarrow> Inl e
      | Inr block' \<Rightarrow>
          (case removeUnused known ns of
             Inl e \<Rightarrow> Inl e
           | Inr ns' \<Rightarrow> Inr (Atrule name block' # ns')))"
| "removeUnused known (Declaration d # ns) =
     (case removeUnused known ns of Inl e \<Rightarrow> Inl e | Inr ns' \<Rightarrow> Inr (Declaration d # ns'))"
| "removeUnused known (Comment c # ns) =
     (case removeUnused known ns of Inl e \<Rightarrow> Inl e | Inr ns' \<Rightarrow> Inr (Comment c # ns'))"
  by pat_completeness auto
termination
  by (relation "measure (\<lambda>(known, ns). size_list size ns)") auto

text \<open>
  The TypeScript copy of the pass differs in two places: a rule without prelude is
  skipped, and the inner test also stops when the selector list is empty:
  \<^verbatim>\<open>if (!(node.prelude as cssTree.SelectorList)) { return }\<close>
  \<^verbatim>\<open>if (s.type !== 'ClassSelector' || list.isEmpty() || cleanCSSIdentifier(s.name) in nodes)
    { return }\<close>
  \<open>others_empty\<close> says that the selector list holds no selector besides the current one.
\<close>

fun each_component_ts ::
  "(string \<Rightarrow> bool) \<Rightarrow> bool \<Rightarrow> css_selector \<Rightarrow> bool \<Rightarrow> error + bool" where
  "each_component_ts known others_empty [] present = Inr present"
| "each_component_ts known others_empty (s # ss) present =
     (if \<not> is_unused known s \<or> (\<not> present \<and> others_empty)
      then each_component_ts known others_empty ss present
      else case remove_item present of
             Inl e \<Rightarrow> Inl e
           | Inr present' \<Rightarrow> each_component_ts known others_empty ss present')"

fun each_selector_ts ::
  "(string \<Rightarrow> bool) \<Rightarrow> css_selector list \<Rightarrow> css_selector list \<Rightarrow> bool
    \<Rightarrow> error + (css_selector list \<times> bool)" where
  "each_selector_ts known kept [] rule_present = Inr (kept, rule_present)"
| "each_selector_ts known kept (selector # rest) rule_present =
     (case each_component_ts known (kept = [] \<and> rest = []) selector True of
        Inl e \<Rightarrow> Inl e
      | Inr present \<Rightarrow>
          let kept' = (if present then kept @ [selector] else kept) in
          if kept' = [] \<and> rest = [] then
            (case remove_item rule_present of
               Inl e \<Rightarrow> Inl e
             | Inr rule_present' \<Rightarrow> each_selector_ts known kept' rest rule_present')
          else each_selector_ts known kept' rest rule_present)"

fun enter_rule_ts :: "(string \<Rightarrow> bool) \<Rightarrow> css_prelude \<Rightarrow> error + (css_prelude \<times> bool)" where
  "enter_rule_ts known (SelectorList sels) =
     (case each_selector_ts known [] sels True of
        Inl e \<Rightarrow> Inl e
      | Inr (sels', rule_present) \<Rightarrow> Inr (SelectorList sels', rule_present))"
| "enter_rule_ts known (Raw v) = Inl TypeError"
| "enter_rule_ts known NoPrelude = Inr (NoPrelude, True)"

function removeUnused_ts :: "(string \<Rightarrow> bool) \<Rightarrow> css_node list \<Rightarrow> error + css_node list" where
  "removeUnused_ts known [] = Inr []"
| "removeUnused_ts known (Rule prelude block # ns) =
     (case enter_rule_ts known prelude of
        Inl e \<Rightarrow> Inl e
      | Inr (prelude', rule_present) \<Rightarrow>
          (case removeUnused_ts known block of
             Inl e \<Rightarrow> Inl e
           | Inr block' \<Rightarrow>
               (case removeUnused_ts known ns of
                  Inl e \<Rightarrow> Inl e
                | Inr ns' \<Rightarrow>
                    Inr (if rule_present then Rule prelude' block' # ns' else ns'))))"
| "removeUnused_ts known (Atrule name block # ns) =
     (case removeUnused_ts known block of
        Inl e \<Rightarrow> Inl e
      | Inr block' \<Rightarrow>
          (case removeUnused_ts known ns of
             Inl e \<Rightarrow> Inl e
           | Inr ns' \<Rightarrow> Inr (Atrule name block' # ns')))"
| "removeUnused_ts known (Declaration d # ns) =
     (case removeUnused_ts known ns of
        Inl e \<Rightarrow> Inl e
      | Inr ns' \<Rightarrow> Inr (Declaration d # ns'))"
| "removeUnused_ts known (Comment c # ns) =
     (case removeUnused_ts known ns of Inl e \<Rightarrow> Inl e | Inr ns' \<Rightarrow> Inr (Comment c # ns'))"
  by pat_completeness auto
termination
  by (relation "measure (\<lambda>(known, ns). size_list size ns)") auto

text \<open>
  \<^verbatim>\<open>cssTree.walk(ast, { visit: 'Comment', enter: function (_, item, list) { list.remove(item) } })\<close>
  (TypeScript source only).
\<close>

function removeComments :: "css_node list \<Rightarrow> css_node list" where
  "removeComments [] = []"
| "removeComments (Rule prelude block # ns) = Rule prelude (removeComments block) # removeComments ns"
| "removeComments (Atrule name block # ns) = Atrule name (removeComments block) # removeComments ns"
| "removeComments (Declaration d # ns) = Declaration d # removeComments ns"
| "removeComments (Comment c # ns) = removeComments ns"
  by pat_completeness auto
termination
  by (relation "measure (size_list size)") auto

section \<open>Counting the class selectors that remain\<close>

text \<open>
  \<^verbatim>\<open>csstree.walk(ast, { visit: 'ClassSelector', enter: function (node) {...} })\<close> visits every
  class selector of the tree in document order, those in the arguments of a pseudo-class
  included. The names of the visited nodes, in that order:
\<close>

fun component_class_names :: "css_component \<Rightarrow> string list" where
  "component_class_names (ClassSelector n) = [n]"
| "component_class_names (PseudoClassSelector n sels) =
     concat (map (\<lambda>sel. concat (map component_class_names sel)) sels)"
| "component_class_names (OtherComponent t v) = []"

definition selector_class_names :: "css_selector \<Rightarrow> string list" where
  "selector_class_names sel = concat (map component_class_names sel)"

fun prelude_class_names :: "css_prelude \<Rightarrow> string list" where
  "prelude_class_names (SelectorList sels) = concat (map selector_class_names sels)"
| "prelude_class_names (Raw v) = []"
| "prelude_class_names NoPrelude = []"

function class_names :: "css_node list \<Rightarrow> string list" where
  "class_names [] = []"
| "class_names (Rule prelude block # ns) =
     prelude_class_names prelude @ class_names block @ class_names ns"
| "class_names (Atrule name block # ns) = class_names block @ class_names ns"
| "class_names (Declaration d # ns) = class_names ns"
| "class_names (Comment c # ns) = class_names ns"
  by pat_completeness auto
termination
  by (relation "measure (size_list size)") auto

text \<open>
  \<^verbatim>\<open>const name = cleanCSSIdentifier(node.name)
  if (!(name in classnames)) {
    throw new Error('encountered unused class selector when it should have been removed') }
  classnames[name].count++\<close>
  for the visited nodes in turn.
\<close>

fun count_class_selectors :: "heap \<Rightarrow> string list \<Rightarrow> error + heap" where
  "count_class_selectors h [] = Inr h"
| "count_class_selectors h (n # ns) =
     (let name = cleanCSSIdentifier n in
      if \<not> has_classname h name then Inl UnusedClassSelector
      else count_class_selectors (increment_count h name) ns)"

text \<open>\<^verbatim>\<open>parseCSS\<close> after \<^verbatim>\<open>csstree.parse\<close>: the pruned tree and the updated counts.\<close>

definition parseCSS :: "heap \<Rightarrow> css_node list \<Rightarrow> error + (css_node list \<times> heap)" where
  "parseCSS h ast =
     (case removeUnused (has_classname h) ast of
        Inl e \<Rightarrow> Inl e
      | Inr ast' \<Rightarrow>
          (case count_class_selectors h (class_names ast') of
             Inl e \<Rightarrow> Inl e
           | Inr h' \<Rightarrow> Inr (ast', h')))"

text \<open>The same walk of the TypeScript source: \<^verbatim>\<open>nodes[name]++\<close>.\<close>

fun count_class_selectors_ts ::
  "(string \<times> jsnum) list \<Rightarrow> string list \<Rightarrow> error + (string \<times> jsnum) list" where
  "count_class_selectors_ts nodes [] = Inr nodes"
| "count_class_selectors_ts nodes (n # ns) =
     (let name = cleanCSSIdentifier n in
      if \<not> has_node nodes name then Inl UnusedClassSelector
      else count_class_selectors_ts (increment_node nodes name) ns)"

definition parseAndTrackCSSNodes ::
  "(string \<times> jsnum) list \<Rightarrow> css_node list \<Rightarrow> error + (css_node list \<times> (string \<times> jsnum) list)" where
  "parseAndTrackCSSNodes nodes ast =
     (case removeUnused_ts (has_node nodes) (removeComments ast) of
        Inl e \<Rightarrow> Inl e
      | Inr ast' \<Rightarrow>
          (case count_class_selectors_ts nodes (class_names ast') of
             Inl e \<Rightarrow> Inl e
           | Inr nodes' \<Rightarrow> Inr (ast', nodes')))"

section \<open>The rename planner\<close>

text \<open>
  \<^verbatim>\<open>let sorted = Object.entries(classnames)
    .map(([name, sel]) => { return { name, total: name.length * sel.count } })
    .sort((a, b) => b.total - a.total)\<close>
  \<^verbatim>\<open>Array.prototype.sort\<close> is stable; with this comparator it orders by descending total.
\<close>

record ranked =
  name :: string
  total :: nat

definition sortedClassnames :: "(string \<times> nat) list \<Rightarrow> ranked list" where
  "sortedClassnames cn =
     sort_key (\<lambda>e. - int (total e))
       (map (\<lambda>(n, c). \<lparr>name = n, total = length n * c\<rparr>) (object_entries cn))"

section \<open>Rewriting the CSS\<close>

text \<open>
  A value stored in \<^verbatim>\<open>rename\<close>: a string, or the object \<^verbatim>\<open>{}\<close> that
  \<^verbatim>\<open>const rename = { classnames: {} }\<close> puts there.
\<close>

datatype jsval = Str string | Object

text \<open>
  \<^verbatim>\<open>rename[name] = newname\<close>. For the name \<^verbatim>\<open>__proto__\<close> the assignment runs the setter
  inherited from \<^verbatim>\<open>Object.prototype\<close>, which ignores a string: no property is created.
\<close>

definition set_property :: "string \<Rightarrow> 'v \<Rightarrow> (string \<times> 'v) list \<Rightarrow> (string \<times> 'v) list" where
  "set_property k v obj = (if k = ''__proto__'' then obj else set_own k v obj)"

text \<open>
  \<^verbatim>\<open>const name = cleanCSSIdentifier(node.name)
  if (name !== sel.name) { return }
  const newname = generateShortestName(i)
  rename[name] = newname
  node.name = newname\<close>
  on every class selector of the tree: the effect on the tree, then on \<^verbatim>\<open>rename\<close>.
\<close>

fun rename_component :: "string \<Rightarrow> string \<Rightarrow> css_component \<Rightarrow> css_component" where
  "rename_component sel newname (ClassSelector n) =
     (if cleanCSSIdentifier n \<noteq> sel then ClassSelector n else ClassSelector newname)"
| "rename_component sel newname (PseudoClassSelector n sels) =
     PseudoClassSelector n (map (map (rename_component sel newname)) sels)"
| "rename_component sel newname (OtherComponent t v) = OtherComponent t v"

fun rename_prelude :: "string \<Rightarrow> string \<Rightarrow> css_prelude \<Rightarrow> css_prelude" where
  "rename_prelude sel newname (SelectorList sels) =
     SelectorList (map (map (rename_component sel newname)) sels)"
| "rename_prelude sel newname (Raw v) = Raw v"
| "rename_prelude sel newname NoPrelude = NoPrelude"

function rename_nodes :: "string \<Rightarrow> string \<Rightarrow> css_node list \<Rightarrow> css_node list" where
  "rename_nodes sel newname [] = []"
| "rename_nodes sel newname (Rule prelude block # ns) =
     Rule (rename_prelude sel newname prelude) (rename_nodes sel newname block)
       # rename_nodes sel newname ns"
| "rename_nodes sel newname (Atrule a block # ns) =
     Atrule a (rename_nodes sel newname block) # rename_nodes sel newname ns"
| "rename_nodes sel newname (Declaration d # ns) = Declaration d # rename_nodes sel newname ns"
| "rename_nodes sel newname (Comment c # ns) = Comment c # rename_nodes sel newname ns"
  by pat_completeness auto
termination
  by (relation "measure (\<lambda>(sel, newname, ns). size_list size ns)") auto

definition walk_rename ::
  "nat \<Rightarrow> string \<Rightarrow> (string \<times> jsval) list \<times> css_node list
    \<Rightarrow> (string \<times> jsval) list \<times> css_node list" where
  "walk_rename i sel st =
     (case st of (rename, ast) \<Rightarrow>
        if sel \<in> set (map cleanCSSIdentifier (class_names ast))
        then (set_property sel (Str (generateShortestName i)) rename,
              rename_nodes sel (generateShortestName i) ast)
        else (rename, ast))"

text \<open>\<^verbatim>\<open>for (const [i, sel] of sorted.entries()) { csstree.walk(ast, ...) }\<close>\<close>

fun processCSS_loop ::
  "nat \<Rightarrow> ranked list \<Rightarrow> (string \<times> jsval) list \<times> css_node list
    \<Rightarrow> (string \<times> jsval) list \<times> css_node list" where
  "processCSS_loop i [] st = st"
| "processCSS_loop i (sel # rest) st = processCSS_loop (i + 1) rest (walk_rename i (name sel) st)"

text \<open>
  \<^verbatim>\<open>processCSS\<close>: the updated \<^verbatim>\<open>rename\<close> and the tree that \<^verbatim>\<open>csstree.generate\<close> writes out.
\<close>

definition processCSS ::
  "ranked list \<Rightarrow> (string \<times> jsval) list \<Rightarrow> css_node list
    \<Rightarrow> (string \<times> jsval) list \<times> css_node list" where
  "processCSS ranking rename ast = processCSS_loop 0 ranking (rename, ast)"

section \<open>Rewriting the HTML\<close>

text \<open>
  The string that \<^verbatim>\<open>join\<close> makes of a value read from \<^verbatim>\<open>rename\<close>: of an own property,
  and of a property inherited from \<^verbatim>\<open>Object.prototype\<close> (itself for \<^verbatim>\<open>__proto__\<close>, the
  number NaN for \<^verbatim>\<open>count\<close>, a built-in function for the others).
\<close>

fun js_to_string :: "jsval \<Rightarrow> string" where
  "js_to_string (Str v) = v"
| "js_to_string Object = ''[object Object]''"

definition inherited_to_string :: "string \<Rightarrow> string" where
  "inherited_to_string k =
     (if k = ''__proto__'' then ''[object Object]''
      else if k = ''count'' then ''NaN''
      else if k = ''constructor'' then ''function Object() { [native code] }''
      else ''function '' @ k @ ''() { [native code] }'')"

text \<open>\<^verbatim>\<open>c => { if (c in rename) { return rename[c] }; return c }\<close>, as a string.\<close>

definition replace_classname :: "bool \<Rightarrow> (string \<times> jsval) list \<Rightarrow> string \<Rightarrow> string" where
  "replace_classname pc rename c =
     (if js_in pc rename c
      then (case map_of rename c of Some v \<Rightarrow> js_to_string v | None \<Rightarrow> inherited_to_string c)
      else c)"

text \<open>\<^verbatim>\<open>replace.join(' ')\<close>\<close>

fun join :: "string list \<Rightarrow> string" where
  "join [] = []"
| "join [x] = x"
| "join (x # y # ys) = x @ '' '' @ join (y # ys)"

text \<open>
  \<^verbatim>\<open>if (node.classNames) {
    const replace = node.classNames.map(...)
    if (replace.length > 0) { node.setAttribute('class', replace.join(' ')) } }
  for (const child of node.childNodes) { processHTMLNodeChildren(rename, child) }\<close>
  \<^verbatim>\<open>renameHTMLNodes\<close> of the TypeScript source is the same function.
\<close>

fun processHTMLNodeChildren :: "bool \<Rightarrow> (string \<times> jsval) list \<Rightarrow> html_node \<Rightarrow> html_node" where
  "processHTMLNodeChildren pc rename (HTMLNode cn a ch) =
     HTMLNode cn
       (case cn of
          None \<Rightarrow> a
        | Some cs \<Rightarrow>
            let replace = map (replace_classname pc rename) cs in
            if length replace > 0 then Some (join replace) else a)
       (map (processHTMLNodeChildren pc rename) ch)"

section \<open>The orchestrator\<close>

text \<open>
  \<^verbatim>\<open>rip\<close>, from the parsed trees on (reading and parsing the files is the work of the
  libraries). \<open>pc\<close> says whether \<^verbatim>\<open>Object.prototype.count\<close> exists when \<^verbatim>\<open>rip\<close> is called.
  \<open>rip_run\<close> gives the values of the local variables at the end, \<open>rip\<close> the returned trees;
  \<open>ranking\<close> is the array \<^verbatim>\<open>sorted\<close>.
\<close>

fun parse_css_files :: "heap \<Rightarrow> css_node list list \<Rightarrow> error + (css_node list list \<times> heap)" where
  "parse_css_files h [] = Inr ([], h)"
| "parse_css_files h (f # fs) =
     (case parseCSS h f of
        Inl e \<Rightarrow> Inl e
      | Inr (ast, h') \<Rightarrow>
          (case parse_css_files h' fs of
             Inl e \<Rightarrow> Inl e
           | Inr (asts, h'') \<Rightarrow> Inr (ast # asts, h'')))"

fun process_css_files ::
  "ranked list \<Rightarrow> (string \<times> jsval) list \<Rightarrow> css_node list list
    \<Rightarrow> (string \<times> jsval) list \<times> css_node list list" where
  "process_css_files ranking rename [] = (rename, [])"
| "process_css_files ranking rename (f # fs) =
     (case processCSS ranking rename f of
        (rename', ast) \<Rightarrow>
          (case process_css_files ranking rename' fs of
             (rename'', asts) \<Rightarrow> (rename'', ast # asts)))"

record rip_state =
  final_classnames :: "(string \<times> nat) list"
  final_sorted :: "ranked list"
  final_rename :: "(string \<times> jsval) list"
  html :: "html_node list"
  css :: "css_node list list"

definition rip_run :: "bool \<Rightarrow> html_node list \<Rightarrow> css_node list list \<Rightarrow> error + rip_state" where
  "rip_run pc htmlFiles cssFiles =
     (let h1 = fold (\<lambda>f h. parseHTMLNodeChildren h f) htmlFiles
                 \<lparr>classnames = [], prototype_count = pc\<rparr>
      in case parse_css_files h1 cssFiles of
           Inl e \<Rightarrow> Inl e
         | Inr (asts, h2) \<Rightarrow>
             let ranking = sortedClassnames (classnames h2) in
             (case process_css_files ranking [(''classnames'', Object)] asts of
                (rename, asts') \<Rightarrow>
                  Inr \<lparr>final_classnames = classnames h2, final_sorted = ranking,
                       final_rename = rename,
                       html = map (processHTMLNodeChildren (prototype_count h2) rename) htmlFiles,
                       css = asts'\<rparr>))"

definition rip ::
  "bool \<Rightarrow> html_node list \<Rightarrow> css_node list list \<Rightarrow> error + (html_node list \<times> css_node list list)" where
  "rip pc htmlFiles cssFiles =
     (case rip_run pc htmlFiles cssFiles of Inl e \<Rightarrow> Inl e | Inr s \<Rightarrow> Inr (html s, css s))"

section \<open>Notions used to state the properties\<close>

text \<open>
  The class tokens of an HTML tree and its nodes, in document order.
\<close>

fun html_class_tokens :: "html_node \<Rightarrow> string list" where
  "html_class_tokens (HTMLNode cn a ch) =
     (case cn of Some cs \<Rightarrow> cs | None \<Rightarrow> []) @ concat (map html_class_tokens ch)"

fun html_nodes :: "html_node \<Rightarrow> html_node list" where
  "html_nodes (HTMLNode cn a ch) = HTMLNode cn a ch # concat (map html_nodes ch)"

text \<open>
  The count recorded for a name, 0 when \<^verbatim>\<open>classnames\<close> has no own property of that name.
\<close>

definition count_of :: "(string \<times> nat) list \<Rightarrow> string \<Rightarrow> nat" where
  "count_of obj k = (case map_of obj k of Some c \<Rightarrow> c | None \<Rightarrow> 0)"

text \<open>
  The number of components of a selector that the test of line 80 rejects; a selector
  survives the pruning when it has none.
\<close>

definition unused_count :: "(string \<Rightarrow> bool) \<Rightarrow> css_selector \<Rightarrow> nat" where
  "unused_count known sel = length (filter (is_unused known) sel)"

definition selector_survives :: "(string \<Rightarrow> bool) \<Rightarrow> css_selector \<Rightarrow> bool" where
  "selector_survives known sel = (unused_count known sel = 0)"

text \<open>
  What dead-rule elimination leaves of a tree: in every rule the selectors that survive,
  each with all its components; a rule goes when it had selectors and none survives.
\<close>

function pruned :: "(string \<Rightarrow> bool) \<Rightarrow> css_node list \<Rightarrow> css_node list" where
  "pruned known [] = []"
| "pruned known (Rule (SelectorList sels) block # ns) =
     (if sels \<noteq> [] \<and> filter (selector_survives known) sels = [] then pruned known ns
      else Rule (SelectorList (filter (selector_survives known) sels)) (pruned known block)
             # pruned known ns)"
| "pruned known (Rule (Raw v) block # ns) = Rule (Raw v) (pruned known block) # pruned known ns"
| "pruned known (Rule NoPrelude block # ns) = Rule NoPrelude (pruned known block) # pruned known ns"
| "pruned known (Atrule a block # ns) = Atrule a (pruned known block) # pruned known ns"
| "pruned known (Declaration d # ns) = Declaration d # pruned known ns"
| "pruned known (Comment c # ns) = Comment c # pruned known ns"
  by pat_completeness auto
termination
  by (relation "measure (\<lambda>(known, ns). size_list size ns)") auto

text \<open>
  A tree on which the pruning pass runs to its end (see \<open>removeUnused_prunable\<close>): every
  rule has a selector list, and no selector has two components that the test rejects.
\<close>

function prunable :: "(string \<Rightarrow> bool) \<Rightarrow> css_node list \<Rightarrow> bool" where
  "prunable known [] = True"
| "prunable known (Rule (SelectorList sels) block # ns) =
     (list_all (\<lambda>sel. unused_count known sel \<le> 1) sels \<and> prunable known block
      \<and> prunable known ns)"
| "prunable known (Rule (Raw v) block # ns) = False"
| "prunable known (Rule NoPrelude block # ns) = False"
| "prunable known (Atrule a block # ns) = (prunable known block \<and> prunable known ns)"
| "prunable known (Declaration d # ns) = prunable known ns"
| "prunable known (Comment c # ns) = prunable known ns"
  by pat_completeness auto
termination
  by (relation "measure (\<lambda>(known, ns). size_list size ns)") auto

text \<open>
  The pruning as the specification words it (claim C1): every rejected class-selector
  component is removed from its selector, the other components are kept; a selector goes
  when no component is left, a rule when no selector is left. It is compared with
  \<open>removeUnused\<close> below.
\<close>

function spec_removeUnused :: "(string \<Rightarrow> bool) \<Rightarrow> css_node list \<Rightarrow> css_node list" where
  "spec_removeUnused known [] = []"
| "spec_removeUnused known (Rule (SelectorList sels) block # ns) =
     (let sels' = filter (\<lambda>sel. sel \<noteq> [])
                    (map (filter (\<lambda>s. \<not> is_unused known s)) sels)
      in if sels' = [] then spec_removeUnused known ns
         else Rule (SelectorList sels') (spec_removeUnused known block)
                # spec_removeUnused known ns)"
| "spec_removeUnused known (Rule (Raw v) block # ns) =
     Rule (Raw v) (spec_removeUnused known block) # spec_removeUnused known ns"
| "spec_removeUnused known (Rule NoPrelude block # ns) =
     Rule NoPrelude (spec_removeUnused known block) # spec_removeUnused known ns"
| "spec_removeUnused known (Atrule a block # ns) =
     Atrule a (spec_removeUnused known block) # spec_removeUnused known ns"
| "spec_removeUnused known (Declaration d # ns) = Declaration d # spec_removeUnused known ns"
| "spec_removeUnused known (Comment c # ns) = Comment c # spec_removeUnused known ns"
  by pat_completeness auto
termination
  by (relation "measure (\<lambda>(known, ns). size_list size ns)") auto

text \<open>
  A tree without class selectors inside the arguments of a pseudo-class.
\<close>

fun flat_component :: "css_component \<Rightarrow> bool" where
  "flat_component (PseudoClassSelector n sels) =
     (component_class_names (PseudoClassSelector n sels) = [])"
| "flat_component c = True"

fun flat_prelude :: "css_prelude \<Rightarrow> bool" where
  "flat_prelude (SelectorList sels) = list_all (list_all flat_component) sels"
| "flat_prelude p = True"

function flat :: "css_node list \<Rightarrow> bool" where
  "flat [] = True"
| "flat (Rule prelude block # ns) = (flat_prelude prelude \<and> flat block \<and> flat ns)"
| "flat (Atrule a block # ns) = (flat block \<and> flat ns)"
| "flat (Declaration d # ns) = flat ns"
| "flat (Comment c # ns) = flat ns"
  by pat_completeness auto
termination
  by (relation "measure (size_list size)") auto

text \<open>
  Every own property of \<^verbatim>\<open>rename\<close> is the initial \<^verbatim>\<open>classnames: {}\<close> or pairs the name
  at some rank with the short name of that rank.
\<close>

definition assigned :: "ranked list \<Rightarrow> (string \<times> jsval) list \<Rightarrow> bool" where
  "assigned ranking r =
     (\<forall>(k, v) \<in> set r.
        (k = ''classnames'' \<and> v = Object) \<or>
        (\<exists>i < length ranking. k = name (ranking ! i) \<and> v = Str (generateShortestName i)))"

section \<open>Properties of the shortest-name generator\<close>

lemma times_over_loop_eq:
  "times_over_loop idx t = (idx mod 26, t + idx div 26)"
proof (induction idx t rule: times_over_loop.induct)
  case (1 idx t)
  show ?case
  proof (cases "idx \<ge> 26")
    case True
    have "times_over_loop idx t = times_over_loop (idx - 26) (t + 1)"
      using True by (subst times_over_loop.simps) (simp add: length_ascii)
    also have "\<dots> = ((idx - 26) mod 26, t + 1 + (idx - 26) div 26)"
      using "1" True by (simp add: length_ascii)
    also have "(idx - 26) mod 26 = idx mod 26"
      using True by (simp add: le_mod_geq)
    also have "t + 1 + (idx - 26) div 26 = t + idx div 26"
      using True by (simp add: le_div_geq)
    finally show ?thesis .
  next
    case False
    then show ?thesis
      by (subst times_over_loop.simps) (simp add: length_ascii)
  qed
qed

lemma ascii_nth: "k < 26 \<Longrightarrow> ascii ! k = [char_of (97 + k)]"
proof -
  assume k: "k < 26"
  have "ascii ! k = [char_of ([97..<123] ! k)]"
    unfolding ascii_def range_upt using k by (simp only: nth_map length_upt)
  also have "[97..<123] ! k = 97 + k"
    using k by (simp only: nth_upt)
  finally show ?thesis .
qed

lemma generateShortestName_eq:
  "generateShortestName i =
     (if i < 26 then [char_of (97 + i)]
      else [char_of (97 + i mod 26)] @ string_of_nat (i div 26 - 1))"
proof (cases "i < 26")
  case True
  then show ?thesis
    by (simp add: generateShortestName_def times_over_loop_eq ascii_nth)
next
  case False
  then have "i div 26 \<noteq> 0" by (simp add: div_eq_0_iff)
  with False show ?thesis
    by (simp add: generateShortestName_def times_over_loop_eq ascii_nth)
qed

lemma string_of_nat_digit: "n < 10 \<Longrightarrow> string_of_nat n = [digit_char n]"
  by (subst string_of_nat.simps) simp

lemma length_string_of_nat_step:
  "\<not> n < 10 \<Longrightarrow> length (string_of_nat n) = Suc (length (string_of_nat (n div 10)))"
  by (subst string_of_nat.simps) simp

lemma length_string_of_nat_mono:
  "m \<le> n \<Longrightarrow> length (string_of_nat m) \<le> length (string_of_nat n)"
proof (induction n arbitrary: m rule: string_of_nat.induct)
  case (1 n)
  show ?case
  proof (cases "n < 10")
    case True
    with "1.prems" have "m < 10" by simp
    with True show ?thesis by (simp add: string_of_nat_digit)
  next
    case False
    note n10 = this
    show ?thesis
    proof (cases "m < 10")
      case True
      with n10 show ?thesis
        by (simp add: string_of_nat_digit length_string_of_nat_step)
    next
      case False
      have "m div 10 \<le> n div 10" using "1.prems" by (rule div_le_mono)
      then have "length (string_of_nat (m div 10)) \<le> length (string_of_nat (n div 10))"
        using "1.IH" n10 by simp
      with n10 False show ?thesis
        by (simp add: length_string_of_nat_step)
    qed
  qed
qed

lemma length_generateShortestName:
  "length (generateShortestName i) =
     (if i < 26 then 1 else 1 + length (string_of_nat (i div 26 - 1)))"
  by (simp add: generateShortestName_eq)

lemma ascii_letters: "ascii =
     [''a'', ''b'', ''c'', ''d'', ''e'', ''f'', ''g'', ''h'', ''i'', ''j'', ''k'', ''l'', ''m'',
      ''n'', ''o'', ''p'', ''q'', ''r'', ''s'', ''t'', ''u'', ''v'', ''w'', ''x'', ''y'', ''z'']"
  unfolding ascii_def range_upt by code_simp

lemma digit_chars: "map digit_char [0, 1, 2, 3, 4, 5, 6, 7, 8, 9] = ''0123456789''"
  unfolding digit_char_def by code_simp

lemma generateShortestName_nth:
  "generateShortestName i =
     (if i < 26 then ascii ! i else ascii ! (i mod 26) @ string_of_nat (i div 26 - 1))"
  by (simp add: generateShortestName_eq ascii_nth)

text \<open>
  Claim C3. The generator is a total function of the index (the loop above terminates for
  every index, leaving \<open>idx mod 26\<close> and \<open>idx div 26\<close>): indices 0 to 25 give the
  letters \<open>a\<close> to \<open>z\<close> in order, 26 gives \<open>a0\<close>, 51 gives \<open>z0\<close>, 52 gives \<open>a1\<close>, and in
  general index \<open>26 + i\<close> gives letter number \<open>i mod 26\<close> followed by the decimal round
  number \<open>i div 26\<close>, which grows by one every 26 indices.
\<close>

theorem generateShortestName_sequence:
  "map generateShortestName [0..<26] =
     [''a'', ''b'', ''c'', ''d'', ''e'', ''f'', ''g'', ''h'', ''i'', ''j'', ''k'', ''l'', ''m'',
      ''n'', ''o'', ''p'', ''q'', ''r'', ''s'', ''t'', ''u'', ''v'', ''w'', ''x'', ''y'', ''z'']
   \<and> generateShortestName 26 = ''a0''
   \<and> generateShortestName 51 = ''z0''
   \<and> generateShortestName 52 = ''a1''
   \<and> (\<forall>i. times_over_loop i 0 = (i mod 26, i div 26))
   \<and> (\<forall>i. generateShortestName (26 + i) = ascii ! (i mod 26) @ string_of_nat (i div 26))"
proof -
  have "map generateShortestName [0..<26] = map ((!) ascii) [0..<length ascii]"
    unfolding length_ascii by (rule map_cong) (simp_all add: generateShortestName_nth)
  then have letters: "map generateShortestName [0..<26] = ascii"
    by (simp only: map_nth)
  have d0: "string_of_nat 0 = ''0''" and d1: "string_of_nat 1 = ''1''"
    using digit_chars by (simp_all add: string_of_nat_digit)
  have a0: "generateShortestName 26 = ''a0''"
    by (simp add: generateShortestName_nth d0 ascii_letters)
  have z0: "generateShortestName 51 = ''z0''"
    by (simp add: generateShortestName_nth d0 ascii_letters)
  have a1: "generateShortestName 52 = ''a1''"
    using d1 by (simp add: generateShortestName_nth ascii_letters)
  have loop: "\<forall>i. times_over_loop i 0 = (i mod 26, i div 26)"
    by (simp add: times_over_loop_eq)
  have round: "generateShortestName (26 + i) = ascii ! (i mod 26) @ string_of_nat (i div 26)"
    for i
  proof -
    have "(26 + i) div 26 - 1 = i div 26" by simp
    then show ?thesis by (simp add: generateShortestName_nth)
  qed
  from letters a0 z0 a1 loop round show ?thesis
    unfolding ascii_letters by blast
qed

text \<open>
  Claim C9, as stated: for \<open>i \<le> j\<close> the name at index \<open>j\<close> is no longer than the name at
  index \<open>i\<close>. It fails at \<open>i = 0\<close>, \<open>j = 26\<close>: the names are \<open>a\<close> and \<open>a0\<close>.
\<close>

theorem generateShortestName_length_counterexample:
  "(0::nat) \<le> 26 \<and> generateShortestName 0 = ''a'' \<and> generateShortestName 26 = ''a0''
   \<and> \<not> length (generateShortestName 26) \<le> length (generateShortestName 0)"
  using digit_chars by (simp add: generateShortestName_nth ascii_letters string_of_nat_digit)

text \<open>
  Claim C9, amended: the length of the assigned name never decreases as the rank
  worsens; for \<open>i \<le> j\<close> the name at index \<open>i\<close> is no longer than the name at index \<open>j\<close>.
\<close>

theorem generateShortestName_length_mono:
  "i \<le> j \<Longrightarrow> length (generateShortestName i) \<le> length (generateShortestName j)"
proof -
  assume ij: "i \<le> j"
  have "i div 26 - 1 \<le> j div 26 - 1"
    using ij by (simp add: div_le_mono diff_le_mono)
  then have "length (string_of_nat (i div 26 - 1)) \<le> length (string_of_nat (j div 26 - 1))"
    by (rule length_string_of_nat_mono)
  with ij show ?thesis
    by (simp add: length_generateShortestName)
qed

theorem generateShortestName_length_mono_witness:
  "(3::nat) \<le> 30 \<and> length (generateShortestName 3) \<le> length (generateShortestName 30)"
  using generateShortestName_length_mono [of 3 30] by simp

lemma char_of_inj_small:
  "a < 256 \<Longrightarrow> b < 256 \<Longrightarrow> char_of (a::nat) = char_of b \<Longrightarrow> a = b"
  using inj_on_char_of_nat by (auto dest: inj_onD)

lemma digit_char_inj: "a < 10 \<Longrightarrow> b < 10 \<Longrightarrow> digit_char a = digit_char b \<Longrightarrow> a = b"
  unfolding digit_char_def by (drule char_of_inj_small [rotated 2]) auto

lemma string_of_nat_not_Nil: "string_of_nat n \<noteq> []"
  by (subst string_of_nat.simps) simp

lemma string_of_nat_inj: "string_of_nat m = string_of_nat n \<Longrightarrow> m = n"
proof (induction n arbitrary: m rule: string_of_nat.induct)
  case (1 n)
  show ?case
  proof (cases "n < 10")
    case True
    note n = this
    show ?thesis
    proof (cases "m < 10")
      case True
      with n "1.prems" show ?thesis
        by (auto simp: string_of_nat_digit dest: digit_char_inj)
    next
      case False
      then have "length (string_of_nat m) = Suc (length (string_of_nat (m div 10)))"
        by (rule length_string_of_nat_step)
      moreover have "length (string_of_nat n) = 1"
        using n by (simp add: string_of_nat_digit)
      ultimately show ?thesis
        using "1.prems" string_of_nat_not_Nil [of "m div 10"] by simp
    qed
  next
    case False
    note n = this
    show ?thesis
    proof (cases "m < 10")
      case True
      have "length (string_of_nat n) = Suc (length (string_of_nat (n div 10)))"
        using n by (rule length_string_of_nat_step)
      moreover have "length (string_of_nat m) = 1"
        using True by (simp add: string_of_nat_digit)
      ultimately show ?thesis
        using "1.prems" string_of_nat_not_Nil [of "n div 10"] by simp
    next
      case False
      have en: "string_of_nat n = string_of_nat (n div 10) @ [digit_char (n mod 10)]"
        using n by (subst string_of_nat.simps) simp
      have em: "string_of_nat m = string_of_nat (m div 10) @ [digit_char (m mod 10)]"
        using False by (subst string_of_nat.simps) simp
      from "1.prems" en em have
        a: "string_of_nat (m div 10) = string_of_nat (n div 10)" and
        b: "digit_char (m mod 10) = digit_char (n mod 10)"
        by simp_all
      from "1.IH" [OF n a] have "m div 10 = n div 10" .
      moreover from b have "m mod 10 = n mod 10"
        by (rule digit_char_inj [rotated 2]) simp_all
      ultimately show ?thesis
        by (metis div_mult_mod_eq)
    qed
  qed
qed

lemma generateShortestName_inj:
  "generateShortestName i = generateShortestName j \<Longrightarrow> i = j"
proof -
  assume eq: "generateShortestName i = generateShortestName j"
  have len: "length (generateShortestName i) = length (generateShortestName j)"
    using eq by simp
  have pos: "0 < length (string_of_nat n)" for n
    using string_of_nat_not_Nil [of n] by simp
  consider (small) "i < 26" "j < 26" | (big) "\<not> i < 26" "\<not> j < 26"
    | (mixed) "i < 26 \<longleftrightarrow> \<not> j < 26" by blast
  then show ?thesis
  proof cases
    case small
    with eq have "char_of (97 + i) = (char_of (97 + j) :: char)"
      by (simp add: generateShortestName_eq)
    then have "97 + i = 97 + j"
      by (rule char_of_inj_small [rotated 2]) (use small in simp_all)
    then show ?thesis by simp
  next
    case big
    with eq have c: "char_of (97 + i mod 26) = (char_of (97 + j mod 26) :: char)"
      and d: "string_of_nat (i div 26 - 1) = string_of_nat (j div 26 - 1)"
      by (simp_all add: generateShortestName_eq)
    from c have "97 + i mod 26 = 97 + j mod 26"
      by (rule char_of_inj_small [rotated 2]) simp_all
    then have m: "i mod 26 = j mod 26" by simp
    from d have "i div 26 - 1 = j div 26 - 1" by (rule string_of_nat_inj)
    moreover from big have "1 \<le> i div 26" "1 \<le> j div 26"
      by (simp_all add: Suc_le_eq div_greater_zero_iff)
    ultimately have "i div 26 = j div 26" by simp
    with m show ?thesis by (metis div_mult_mod_eq)
  next
    case mixed
    with len pos [of "i div 26 - 1"] pos [of "j div 26 - 1"] show ?thesis
      by (auto simp: length_generateShortestName split: if_splits)
  qed
qed

section \<open>Properties of own properties\<close>

lemma map_of_set_own: "map_of (set_own k v obj) = (map_of obj)(k \<mapsto> v)"
  by (induction obj) (auto simp: fun_eq_iff)

lemma keys_set_own:
  "map fst (set_own k v obj) = (if k \<in> set (map fst obj) then map fst obj else map fst obj @ [k])"
  by (induction obj) auto

lemma keys_set_own_set: "fst ` set (set_own k v obj) = insert k (fst ` set obj)"
  by (induction obj) auto

lemma distinct_set_own: "distinct (map fst obj) \<Longrightarrow> distinct (map fst (set_own k v obj))"
  by (simp add: keys_set_own)

lemma set_set_own: "set (set_own k v obj) \<subseteq> insert (k, v) (set obj)"
  by (induction obj) auto

lemma map_of_None_iff: "map_of obj k = None \<longleftrightarrow> k \<notin> set (map fst obj)"
  by (simp add: map_of_eq_None_iff)

lemma set_set_property: "set (set_property k v obj) \<subseteq> insert (k, v) (set obj)"
  using set_set_own [of k v obj] by (auto simp: set_property_def)

lemma map_of_set_property:
  "k \<noteq> ''__proto__'' \<Longrightarrow> map_of (set_property k v obj) = (map_of obj)(k \<mapsto> v)"
  by (simp add: set_property_def map_of_set_own)

lemma map_of_set_property_other:
  "k' \<noteq> k \<Longrightarrow> map_of (set_property k v obj) k' = map_of obj k'"
  by (simp add: set_property_def map_of_set_own)

section \<open>Properties of the classname counter\<close>

text \<open>
  The recursive descent counts the class tokens of all nodes of the tree, in document
  order.
\<close>

lemma count_classNames_append:
  "count_classNames h (xs @ ys) = count_classNames (count_classNames h xs) ys"
  by (induction xs arbitrary: h) auto

lemma count_classNames_ts_append:
  "count_classNames_ts h (xs @ ys) = count_classNames_ts (count_classNames_ts h xs) ys"
  by (induction xs arbitrary: h) auto

lemma fold_parse_tokens:
  assumes "\<And>c h. c \<in> set ch \<Longrightarrow> f h c = count_classNames h (g c)"
  shows "fold (\<lambda>c h. f h c) ch h = count_classNames h (concat (map g ch))"
  using assms by (induction ch arbitrary: h) (auto simp: count_classNames_append)

lemma parseHTMLNodeChildren_tokens:
  "parseHTMLNodeChildren h n = count_classNames h (html_class_tokens n)"
proof (induction n arbitrary: h)
  case (HTMLNode cn a ch)
  have "fold (\<lambda>c h. parseHTMLNodeChildren h c) ch h' =
        count_classNames h' (concat (map html_class_tokens ch))" for h'
    by (rule fold_parse_tokens) (rule HTMLNode.IH)
  then show ?case
    by (cases cn) (simp_all add: count_classNames_append)
qed

lemma fold_parse_tokens_ts:
  assumes "\<And>c h. c \<in> set ch \<Longrightarrow> f h c = count_classNames_ts h (g c)"
  shows "fold (\<lambda>c h. f h c) ch h = count_classNames_ts h (concat (map g ch))"
  using assms by (induction ch arbitrary: h) (auto simp: count_classNames_ts_append)

lemma parseHTMLNodeChildren_ts_tokens:
  "parseHTMLNodeChildren_ts h n = count_classNames_ts h (html_class_tokens n)"
proof (induction n arbitrary: h)
  case (HTMLNode cn a ch)
  have "fold (\<lambda>c h. parseHTMLNodeChildren_ts h c) ch h' =
        count_classNames_ts h' (concat (map html_class_tokens ch))" for h'
    by (rule fold_parse_tokens_ts) (rule HTMLNode.IH)
  then show ?case
    by (cases cn) (simp_all add: count_classNames_ts_append)
qed

text \<open>
  As long as no token is the name of a property of \<^verbatim>\<open>Object.prototype\<close>, the counter
  does what claim C7 says: every token ends with its old count plus its number of
  occurrences, a new token starting from 0, and no name is lost.
\<close>

lemma count_classNames_counts:
  "\<not> prototype_count h \<Longrightarrow> set cs \<inter> set object_prototype_keys = {} \<Longrightarrow>
   \<not> prototype_count (count_classNames h cs) \<and>
   map_of (classnames (count_classNames h cs)) k =
     (if k \<in> set cs \<or> k \<in> set (map fst (classnames h))
      then Some (count_of (classnames h) k + count_list cs k) else None)"
proof (induction cs arbitrary: h)
  case Nil
  then show ?case
    by (auto simp: count_of_def map_of_None_iff split: option.splits)
next
  case (Cons c cs)
  let ?h = "if has_classname h c then increment_count h c
            else h\<lparr>classnames := set_own c 1 (classnames h)\<rparr>"
  from Cons.prems have c: "c \<notin> set object_prototype_keys" "c \<noteq> ''__proto__''"
    by (auto simp: object_prototype_keys_def)
  have own: "has_classname h c \<longleftrightarrow> c \<in> set (map fst (classnames h))"
    using Cons.prems c by (simp add: has_classname_def js_in_def inherited_def)
  have pc: "\<not> prototype_count ?h"
    using Cons.prems c by (auto simp: increment_count_def split: option.splits)
  have m: "map_of (classnames ?h) = (map_of (classnames h))(c \<mapsto> count_of (classnames h) c + 1)"
  proof (cases "map_of (classnames h) c")
    case None
    then have "\<not> has_classname h c" using own by (simp add: map_of_None_iff)
    with None show ?thesis by (simp add: map_of_set_own count_of_def)
  next
    case (Some n)
    then have "has_classname h c" using own map_of_None_iff [of "classnames h" c] by simp
    with Some show ?thesis by (simp add: increment_count_def map_of_set_own count_of_def)
  qed
  have keys: "set (map fst (classnames ?h)) = insert c (set (map fst (classnames h)))"
    using m by (metis dom_fun_upd dom_map_of_conv_image_fst list.set_map option.distinct(1))
  have cnt: "count_of (classnames ?h) k = (if k = c then count_of (classnames h) c + 1 else count_of (classnames h) k)"
    unfolding count_of_def m by simp
  from Cons.IH [OF pc] Cons.prems
  have "\<not> prototype_count (count_classNames ?h cs) \<and>
        map_of (classnames (count_classNames ?h cs)) k =
          (if k \<in> set cs \<or> k \<in> set (map fst (classnames ?h))
           then Some (count_of (classnames ?h) k + count_list cs k) else None)"
    by simp
  then show ?case
    unfolding keys cnt by auto
qed

text \<open>
  Claim C7 fails for a token that names a property of \<^verbatim>\<open>Object.prototype\<close>: for the class
  list \<^verbatim>\<open>"constructor"\<close> the test \<^verbatim>\<open>className in classnames\<close> is true on the empty object, so
  the token is not inserted with count 1. \<^verbatim>\<open>styleripper.js\<close> leaves \<^verbatim>\<open>classnames\<close> empty; the
  TypeScript copy stores NaN.
\<close>

theorem parseHTMLNodeChildren_constructor:
  "parseHTMLNodeChildren \<lparr>classnames = [], prototype_count = False\<rparr>
     (HTMLNode (Some [''constructor'']) (Some ''constructor'') [])
   = \<lparr>classnames = [], prototype_count = False\<rparr>
   \<and> parseHTMLNodeChildren_ts [] (HTMLNode (Some [''constructor'']) (Some ''constructor'') [])
   = [(''constructor'', NaN)]"
  by code_simp

section \<open>Properties of dead-rule elimination\<close>

lemma unused_count_simps [simp]:
  "unused_count known [] = 0"
  "unused_count known (s # ss) = (if is_unused known s then Suc (unused_count known ss) else unused_count known ss)"
  by (simp_all add: unused_count_def)

lemma unused_count_0_iff: "unused_count known sel = 0 \<longleftrightarrow> (\<forall>s \<in> set sel. \<not> is_unused known s)"
  by (induction sel) auto

lemma each_component_eq:
  "each_component known sel present =
     (if unused_count known sel = 0 then Inr present
      else if present \<and> unused_count known sel = 1 then Inr False
      else Inl ItemNotInList)"
  by (induction sel arbitrary: present) auto

lemma each_component_ts_eq:
  "each_component_ts known oe sel present =
     (if unused_count known sel = 0 then Inr present
      else if (present \<and> unused_count known sel = 1) \<or> oe then Inr False
      else Inl ItemNotInList)"
  by (induction sel arbitrary: present) auto

lemma each_selector_result:
  "each_selector known kept sels rp = Inr r \<Longrightarrow>
     r = (kept @ filter (selector_survives known) sels,
          if sels \<noteq> [] \<and> kept @ filter (selector_survives known) sels = [] then False else rp)"
proof (induction sels arbitrary: kept rp)
  case Nil
  then show ?case by auto
next
  case (Cons sel rest)
  show ?case
  proof (cases "unused_count known sel = 0")
    case True
    with Cons.prems have "each_selector known (kept @ [sel]) rest rp = Inr r"
      by (simp add: each_component_eq)
    from Cons.IH [OF this] True show ?thesis
      by (simp add: selector_survives_def)
  next
    case False
    show ?thesis
    proof (cases "kept = [] \<and> rest = []")
      case True
      with False Cons.prems show ?thesis
        by (auto simp: each_component_eq selector_survives_def split: if_splits)
    next
      case False
      note ne = this
      with \<open>unused_count known sel \<noteq> 0\<close> Cons.prems
      have "each_selector known kept rest rp = Inr r"
        by (auto simp: each_component_eq split: if_splits)
      from Cons.IH [OF this] ne \<open>unused_count known sel \<noteq> 0\<close> show ?thesis
        by (auto simp: selector_survives_def)
    qed
  qed
qed

lemma each_selector_ts_result:
  "each_selector_ts known kept sels rp = Inr r \<Longrightarrow>
     r = (kept @ filter (selector_survives known) sels,
          if sels \<noteq> [] \<and> kept @ filter (selector_survives known) sels = [] then False else rp)"
proof (induction sels arbitrary: kept rp)
  case Nil
  then show ?case by auto
next
  case (Cons sel rest)
  show ?case
  proof (cases "unused_count known sel = 0")
    case True
    with Cons.prems have "each_selector_ts known (kept @ [sel]) rest rp = Inr r"
      by (simp add: each_component_ts_eq)
    from Cons.IH [OF this] True show ?thesis
      by (simp add: selector_survives_def)
  next
    case False
    show ?thesis
    proof (cases "kept = [] \<and> rest = []")
      case True
      with False Cons.prems show ?thesis
        by (auto simp: each_component_ts_eq selector_survives_def split: if_splits)
    next
      case False
      note ne = this
      with \<open>unused_count known sel \<noteq> 0\<close> Cons.prems
      have "each_selector_ts known kept rest rp = Inr r"
        by (auto simp: each_component_ts_eq split: if_splits)
      from Cons.IH [OF this] ne \<open>unused_count known sel \<noteq> 0\<close> show ?thesis
        by (auto simp: selector_survives_def)
    qed
  qed
qed

lemma each_selector_ok:
  "list_all (\<lambda>sel. unused_count known sel \<le> 1) sels \<Longrightarrow> rp \<or> kept \<noteq> [] \<Longrightarrow>
     \<exists>r. each_selector known kept sels rp = Inr r"
proof (induction sels arbitrary: kept rp)
  case Nil
  then show ?case by simp
next
  case (Cons sel rest)
  then show ?case
    by (auto simp: each_component_eq Let_def)
qed

lemma each_selector_ts_ok:
  "list_all (\<lambda>sel. unused_count known sel \<le> 1) sels \<Longrightarrow> rp \<or> kept \<noteq> [] \<Longrightarrow>
     \<exists>r. each_selector_ts known kept sels rp = Inr r"
proof (induction sels arbitrary: kept rp)
  case Nil
  then show ?case by simp
next
  case (Cons sel rest)
  then show ?case
    by (auto simp: each_component_ts_eq Let_def)
qed

lemma enter_rule_result:
  "enter_rule known p = Inr (p', rp) \<Longrightarrow>
     \<exists>sels. p = SelectorList sels \<and> p' = SelectorList (filter (selector_survives known) sels)
       \<and> rp = (\<not> (sels \<noteq> [] \<and> filter (selector_survives known) sels = []))"
  by (cases p) (auto split: sum.splits dest!: each_selector_result)

lemma enter_rule_ts_result:
  "enter_rule_ts known p = Inr (p', rp) \<Longrightarrow>
     (p = NoPrelude \<and> p' = NoPrelude \<and> rp) \<or>
     (\<exists>sels. p = SelectorList sels \<and> p' = SelectorList (filter (selector_survives known) sels)
       \<and> rp = (\<not> (sels \<noteq> [] \<and> filter (selector_survives known) sels = [])))"
  by (cases p) (auto split: sum.splits dest!: each_selector_ts_result)

lemma removeUnused_result:
  "removeUnused known ast = Inr ast' \<Longrightarrow> ast' = pruned known ast"
proof (induction known ast arbitrary: ast' rule: removeUnused.induct)
  case (2 known prelude block ns)
  from "2.prems" obtain p' rp block' ns' where
    e: "enter_rule known prelude = Inr (p', rp)" and
    b: "removeUnused known block = Inr block'" and
    n: "removeUnused known ns = Inr ns'" and
    r: "ast' = (if rp then Rule p' block' # ns' else ns')"
    by (auto split: sum.splits)
  from "2.IH"(1) [OF e refl b] have b': "block' = pruned known block" .
  from "2.IH"(2) [OF e refl b n] have n': "ns' = pruned known ns" .
  from enter_rule_result [OF e] r b' n' show ?case by auto
qed (auto split: sum.splits)

lemma removeUnused_ts_result:
  "removeUnused_ts known ast = Inr ast' \<Longrightarrow> ast' = pruned known ast"
proof (induction known ast arbitrary: ast' rule: removeUnused_ts.induct)
  case (2 known prelude block ns)
  from "2.prems" obtain p' rp block' ns' where
    e: "enter_rule_ts known prelude = Inr (p', rp)" and
    b: "removeUnused_ts known block = Inr block'" and
    n: "removeUnused_ts known ns = Inr ns'" and
    r: "ast' = (if rp then Rule p' block' # ns' else ns')"
    by (auto split: sum.splits)
  from "2.IH"(1) [OF e refl b] have b': "block' = pruned known block" .
  from "2.IH"(2) [OF e refl b n] have n': "ns' = pruned known ns" .
  from enter_rule_ts_result [OF e] r b' n' show ?case by auto
qed (auto split: sum.splits)

text \<open>
  On a prunable tree both versions of the pass run to their end.
\<close>

lemma removeUnused_prunable:
  "prunable known ast \<Longrightarrow> \<exists>ast'. removeUnused known ast = Inr ast'"
proof (induction known ast rule: prunable.induct)
  case (2 known sels block ns)
  then have "\<exists>r. each_selector known [] sels True = Inr r"
    by (intro each_selector_ok) auto
  with 2 show ?case by (auto split: sum.splits)
qed (auto split: sum.splits)

lemma removeUnused_ts_prunable:
  "prunable known ast \<Longrightarrow> \<exists>ast'. removeUnused_ts known ast = Inr ast'"
proof (induction known ast rule: prunable.induct)
  case (2 known sels block ns)
  then have "\<exists>r. each_selector_ts known [] sels True = Inr r"
    by (intro each_selector_ts_ok) auto
  with 2 show ?case by (auto split: sum.splits)
qed (auto split: sum.splits)

text \<open>
  Claim C1, as stated, fails: for the rule \<^verbatim>\<open>div.unused { color: red }\<close>, with only \<^verbatim>\<open>used\<close>
  known, it keeps the selector with its component \<^verbatim>\<open>div\<close>, and the rule. Both versions of
  the code remove the whole selector from the selector list, and so the rule.
\<close>

theorem removeUnused_component_counterexample:
  "removeUnused (has_classname \<lparr>classnames = [(''used'', 1)], prototype_count = False\<rparr>)
     [Rule (SelectorList [[OtherComponent ''TypeSelector'' ''div'', ClassSelector ''unused'']])
        [Declaration ''color:red'']]
   = Inr []
   \<and> removeUnused_ts (has_node [(''used'', Num 1)])
     [Rule (SelectorList [[OtherComponent ''TypeSelector'' ''div'', ClassSelector ''unused'']])
        [Declaration ''color:red'']]
   = Inr []
   \<and> spec_removeUnused (has_classname \<lparr>classnames = [(''used'', 1)], prototype_count = False\<rparr>)
     [Rule (SelectorList [[OtherComponent ''TypeSelector'' ''div'', ClassSelector ''unused'']])
        [Declaration ''color:red'']]
   = [Rule (SelectorList [[OtherComponent ''TypeSelector'' ''div'']]) [Declaration ''color:red'']]
   \<and> removeUnused (has_classname \<lparr>classnames = [(''used'', 1)], prototype_count = False\<rparr>)
     [Rule (SelectorList [[OtherComponent ''TypeSelector'' ''div'', ClassSelector ''unused'']])
        [Declaration ''color:red'']]
   \<noteq> Inr (spec_removeUnused
            (has_classname \<lparr>classnames = [(''used'', 1)], prototype_count = False\<rparr>)
            [Rule (SelectorList [[OtherComponent ''TypeSelector'' ''div'', ClassSelector ''unused'']])
               [Declaration ''color:red'']])"
proof -
  let ?h = "\<lparr>classnames = [(''used'', 1)], prototype_count = False\<rparr>"
  let ?ast = "[Rule (SelectorList [[OtherComponent ''TypeSelector'' ''div'', ClassSelector ''unused'']])
        [Declaration ''color:red'']]"
  have a: "removeUnused (has_classname ?h) ?ast = Inr []"
    by code_simp
  have b: "removeUnused_ts (has_node [(''used'', Num 1)]) ?ast = Inr []"
    by code_simp
  have c: "spec_removeUnused (has_classname ?h) ?ast
      = [Rule (SelectorList [[OtherComponent ''TypeSelector'' ''div'']]) [Declaration ''color:red'']]"
    by code_simp
  from a b c show ?thesis by simp
qed

text \<open>
  Claim C1, amended: whenever dead-rule elimination runs to its end, a selector with at
  least one class-selector component whose cleaned name is not \<^verbatim>\<open>in\<close> the classnames has
  been removed whole from the selector list of its rule, every other selector is kept with
  all its components, and a rule has been removed exactly when its selector list had
  selectors and has lost them all. This holds for \<^verbatim>\<open>parseCSS\<close> and for the TypeScript
  \<^verbatim>\<open>parseAndTrackCSSNodes\<close> (after its removal of comments), and on a prunable tree the
  pass does run to its end.
\<close>

theorem dead_rule_elimination:
  "(parseCSS h ast = Inr (ast', h') \<longrightarrow> ast' = pruned (has_classname h) ast)
   \<and> (parseAndTrackCSSNodes nodes ast = Inr (ast'', nodes') \<longrightarrow>
        ast'' = pruned (has_node nodes) (removeComments ast))
   \<and> (prunable known ast \<longrightarrow>
        removeUnused known ast = Inr (pruned known ast)
        \<and> removeUnused_ts known ast = Inr (pruned known ast))"
proof -
  have "removeUnused known ast = Inr (pruned known ast)" if "prunable known ast"
    using removeUnused_prunable [OF that] removeUnused_result by blast
  moreover have "removeUnused_ts known ast = Inr (pruned known ast)" if "prunable known ast"
    using removeUnused_ts_prunable [OF that] removeUnused_ts_result by blast
  moreover have "ast' = pruned (has_classname h) ast" if "parseCSS h ast = Inr (ast', h')"
    using that by (auto simp: parseCSS_def split: sum.splits dest: removeUnused_result)
  moreover have "ast'' = pruned (has_node nodes) (removeComments ast)"
    if "parseAndTrackCSSNodes nodes ast = Inr (ast'', nodes')"
    using that
    by (auto simp: parseAndTrackCSSNodes_def split: sum.splits dest: removeUnused_ts_result)
  ultimately show ?thesis by blast
qed

text \<open>
  A witness: a stylesheet with a comment, a rule of which one selector goes and one
  stays, and a rule that goes.
\<close>

theorem dead_rule_elimination_witness:
  "parseCSS \<lparr>classnames = [(''used'', 1)], prototype_count = False\<rparr>
     [Comment ''c'',
      Rule (SelectorList [[OtherComponent ''TypeSelector'' ''div'', ClassSelector ''unused''],
                          [ClassSelector ''used'', OtherComponent ''TypeSelector'' ''p'']])
        [Declaration ''color:red''],
      Rule (SelectorList [[ClassSelector ''unused'']]) [Declaration ''color:blue'']]
   = Inr ([Comment ''c'',
           Rule (SelectorList [[ClassSelector ''used'', OtherComponent ''TypeSelector'' ''p'']])
             [Declaration ''color:red'']],
          \<lparr>classnames = [(''used'', 2)], prototype_count = False\<rparr>)
   \<and> parseAndTrackCSSNodes [(''used'', Num 1)]
     [Comment ''c'',
      Rule (SelectorList [[OtherComponent ''TypeSelector'' ''div'', ClassSelector ''unused''],
                          [ClassSelector ''used'', OtherComponent ''TypeSelector'' ''p'']])
        [Declaration ''color:red''],
      Rule (SelectorList [[ClassSelector ''unused'']]) [Declaration ''color:blue'']]
   = Inr ([Rule (SelectorList [[ClassSelector ''used'', OtherComponent ''TypeSelector'' ''p'']])
             [Declaration ''color:red'']],
          [(''used'', Num 2)])
   \<and> pruned (has_classname \<lparr>classnames = [(''used'', 1)], prototype_count = False\<rparr>)
     [Comment ''c'',
      Rule (SelectorList [[OtherComponent ''TypeSelector'' ''div'', ClassSelector ''unused''],
                          [ClassSelector ''used'', OtherComponent ''TypeSelector'' ''p'']])
        [Declaration ''color:red''],
      Rule (SelectorList [[ClassSelector ''unused'']]) [Declaration ''color:blue'']]
   = [Comment ''c'',
      Rule (SelectorList [[ClassSelector ''used'', OtherComponent ''TypeSelector'' ''p'']])
        [Declaration ''color:red'']]"
proof -
  let ?h = "\<lparr>classnames = [(''used'', 1)], prototype_count = False\<rparr>"
  let ?ast = "[Comment ''c'',
      Rule (SelectorList [[OtherComponent ''TypeSelector'' ''div'', ClassSelector ''unused''],
                          [ClassSelector ''used'', OtherComponent ''TypeSelector'' ''p'']])
        [Declaration ''color:red''],
      Rule (SelectorList [[ClassSelector ''unused'']]) [Declaration ''color:blue'']]"
  let ?r = "[Rule (SelectorList [[ClassSelector ''used'', OtherComponent ''TypeSelector'' ''p'']])
             [Declaration ''color:red'']]"
  have a: "parseCSS ?h ?ast = Inr (Comment ''c'' # ?r, \<lparr>classnames = [(''used'', 2)], prototype_count = False\<rparr>)"
    by code_simp
  have b: "parseAndTrackCSSNodes [(''used'', Num 1)] ?ast = Inr (?r, [(''used'', Num 2)])"
    by code_simp
  have c: "prunable (has_classname ?h) ?ast"
    by code_simp
  from dead_rule_elimination
    [of ?h ?ast "Comment ''c'' # ?r" _ "[(''used'', Num 1)]" ?r _ "has_classname ?h"] a b c
  have "Comment ''c'' # ?r = pruned (has_classname ?h) ?ast" by blast
  with a b show ?thesis by simp
qed

section \<open>Properties of the counting walk\<close>

lemma flat_selector_known:
  "list_all flat_component sel \<Longrightarrow> selector_survives known sel \<Longrightarrow>
     n \<in> set (selector_class_names sel) \<Longrightarrow> known (cleanCSSIdentifier n)"
proof (induction sel)
  case Nil
  then show ?case by (simp add: selector_class_names_def)
next
  case (Cons s sel)
  from Cons.prems(2) have s: "\<not> is_unused known s" and sel: "selector_survives known sel"
    by (auto simp: selector_survives_def split: if_splits)
  from Cons.prems(3) consider "n \<in> set (component_class_names s)"
    | "n \<in> set (selector_class_names sel)"
    by (auto simp: selector_class_names_def)
  then show ?case
  proof cases
    case 1
    with s Cons.prems(1) show ?thesis
      by (cases s) (auto simp: is_unused_def)
  next
    case 2
    with Cons.IH sel Cons.prems(1) show ?thesis by simp
  qed
qed

lemma flat_pruned_known:
  "flat ast \<Longrightarrow> n \<in> set (class_names (pruned known ast)) \<Longrightarrow> known (cleanCSSIdentifier n)"
proof (induction known ast rule: pruned.induct)
  case (2 known sels block ns)
  show ?case
  proof (cases "sels \<noteq> [] \<and> filter (selector_survives known) sels = []")
    case True
    with 2 show ?thesis by auto
  next
    case False
    with "2.prems"(2) consider
      "n \<in> set (concat (map selector_class_names (filter (selector_survives known) sels)))"
      | "n \<in> set (class_names (pruned known block))" | "n \<in> set (class_names (pruned known ns))"
      by auto
    then show ?thesis
    proof cases
      case 1
      then obtain sel where "sel \<in> set sels" "selector_survives known sel"
        "n \<in> set (selector_class_names sel)" by auto
      moreover with "2.prems"(1) have "list_all flat_component sel"
        by (auto simp: list_all_iff)
      ultimately show ?thesis by (auto intro: flat_selector_known)
    next
      case 2
      with "2.IH"(2) "2.prems"(1) False show ?thesis by auto
    next
      case 3
      with "2.IH"(3) "2.prems"(1) False show ?thesis by auto
    qed
  qed
qed auto

lemma has_classname_increment:
  "has_classname h k \<Longrightarrow> has_classname (increment_count h c) k"
  by (cases "map_of (classnames h) c")
     (auto simp: has_classname_def js_in_def inherited_def increment_count_def keys_set_own_set)

lemma count_class_selectors_ok:
  "(\<And>n. n \<in> set ns \<Longrightarrow> has_classname h (cleanCSSIdentifier n)) \<Longrightarrow>
     \<exists>h'. count_class_selectors h ns = Inr h'"
proof (induction ns arbitrary: h)
  case Nil
  then show ?case by simp
next
  case (Cons n ns)
  have "\<exists>h'. count_class_selectors (increment_count h (cleanCSSIdentifier n)) ns = Inr h'"
    by (rule Cons.IH) (simp add: Cons.prems has_classname_increment)
  with Cons.prems show ?case by (simp add: Let_def)
qed

lemma has_node_increment:
  "has_node nodes k \<Longrightarrow> has_node (increment_node nodes c) k"
proof (cases "map_of nodes c")
  case None
  then show "has_node nodes k \<Longrightarrow> has_node (increment_node nodes c) k"
    by (auto simp: has_node_def js_in_def increment_node_def keys_set_own_set)
next
  case (Some v)
  then show "has_node nodes k \<Longrightarrow> has_node (increment_node nodes c) k"
    by (cases v) (auto simp: has_node_def js_in_def increment_node_def keys_set_own_set)
qed

lemma count_class_selectors_ts_ok:
  "(\<And>n. n \<in> set ns \<Longrightarrow> has_node nodes (cleanCSSIdentifier n)) \<Longrightarrow>
     \<exists>nodes'. count_class_selectors_ts nodes ns = Inr nodes'"
proof (induction ns arbitrary: nodes)
  case Nil
  then show ?case by simp
next
  case (Cons n ns)
  have "\<exists>nodes'. count_class_selectors_ts (increment_node nodes (cleanCSSIdentifier n)) ns = Inr nodes'"
    by (rule Cons.IH) (simp add: Cons.prems has_node_increment)
  with Cons.prems show ?case by (simp add: Let_def)
qed

lemma flat_removeComments: "flat ast \<Longrightarrow> flat (removeComments ast)"
  by (induction ast rule: removeComments.induct) auto

lemma each_component_error: "each_component known sel present = Inl e \<Longrightarrow> e = ItemNotInList"
  by (simp add: each_component_eq split: if_splits)

lemma each_component_ts_error:
  "each_component_ts known oe sel present = Inl e \<Longrightarrow> e = ItemNotInList"
  by (simp add: each_component_ts_eq split: if_splits)

lemma each_selector_error: "each_selector known kept sels rp = Inl e \<Longrightarrow> e = ItemNotInList"
proof (induction sels arbitrary: kept rp)
  case Nil
  then show ?case by simp
next
  case (Cons sel rest)
  then show ?case
    by (auto simp: Let_def split: sum.splits if_splits dest: each_component_error)
qed

lemma each_selector_ts_error:
  "each_selector_ts known kept sels rp = Inl e \<Longrightarrow> e = ItemNotInList"
proof (induction sels arbitrary: kept rp)
  case Nil
  then show ?case by simp
next
  case (Cons sel rest)
  then show ?case
    by (auto simp: Let_def split: sum.splits if_splits dest: each_component_ts_error)
qed

lemma enter_rule_error: "enter_rule known p = Inl e \<Longrightarrow> e \<noteq> UnusedClassSelector"
  by (cases p) (auto split: sum.splits dest: each_selector_error)

lemma enter_rule_ts_error: "enter_rule_ts known p = Inl e \<Longrightarrow> e \<noteq> UnusedClassSelector"
  by (cases p) (auto split: sum.splits dest: each_selector_ts_error)

lemma removeUnused_error: "removeUnused known ast = Inl e \<Longrightarrow> e \<noteq> UnusedClassSelector"
  by (induction known ast rule: removeUnused.induct)
     (auto split: sum.splits prod.splits if_splits dest: enter_rule_error)

lemma removeUnused_ts_error: "removeUnused_ts known ast = Inl e \<Longrightarrow> e \<noteq> UnusedClassSelector"
  by (induction known ast rule: removeUnused_ts.induct)
     (auto split: sum.splits prod.splits if_splits dest: enter_rule_ts_error)

text \<open>
  On a tree without class selectors inside pseudo-class arguments the invariant I1 of
  claim C5 holds: the counting walk never throws its error.
\<close>

lemma parseCSS_flat:
  "flat ast \<Longrightarrow> parseCSS h ast \<noteq> Inl UnusedClassSelector"
proof
  assume f: "flat ast" and e: "parseCSS h ast = Inl UnusedClassSelector"
  show False
  proof (cases "removeUnused (has_classname h) ast")
    case (Inl err)
    then have "err \<noteq> UnusedClassSelector" by (rule removeUnused_error)
    with Inl e show False by (simp add: parseCSS_def)
  next
    case (Inr ast')
    then have "ast' = pruned (has_classname h) ast" by (rule removeUnused_result)
    with f have "\<exists>h'. count_class_selectors h (class_names ast') = Inr h'"
      by (intro count_class_selectors_ok) (auto dest: flat_pruned_known)
    with Inr e show False by (auto simp: parseCSS_def)
  qed
qed

lemma parseAndTrackCSSNodes_flat:
  "flat ast \<Longrightarrow> parseAndTrackCSSNodes nodes ast \<noteq> Inl UnusedClassSelector"
proof
  assume f: "flat ast" and e: "parseAndTrackCSSNodes nodes ast = Inl UnusedClassSelector"
  show False
  proof (cases "removeUnused_ts (has_node nodes) (removeComments ast)")
    case (Inl err)
    then have "err \<noteq> UnusedClassSelector" by (rule removeUnused_ts_error)
    with Inl e show False by (simp add: parseAndTrackCSSNodes_def)
  next
    case (Inr ast')
    then have "ast' = pruned (has_node nodes) (removeComments ast)"
      by (rule removeUnused_ts_result)
    with f have "\<exists>nodes'. count_class_selectors_ts nodes (class_names ast') = Inr nodes'"
      by (intro count_class_selectors_ts_ok) (auto dest: flat_pruned_known flat_removeComments)
    with Inr e show False by (auto simp: parseAndTrackCSSNodes_def)
  qed
qed

text \<open>
  Claim C5 fails on the code: the pruning looks only at the components of the selectors
  of a rule, the counting walk visits every class selector. For \<^verbatim>\<open>a:not(.unused) { color: red }\<close>
  with only \<^verbatim>\<open>used\<close> known the pruning leaves the rule as it is, and the counting walk then
  throws \<^verbatim>\<open>encountered unused class selector when it should have been removed\<close>, in
  both versions of the source.
\<close>

theorem parseCSS_nested_class_selector:
  "removeUnused (has_classname \<lparr>classnames = [(''used'', 1)], prototype_count = False\<rparr>)
     [Rule (SelectorList [[OtherComponent ''TypeSelector'' ''a'',
                           PseudoClassSelector ''not'' [[ClassSelector ''unused'']]]])
        [Declaration ''color:red'']]
   = Inr [Rule (SelectorList [[OtherComponent ''TypeSelector'' ''a'',
                               PseudoClassSelector ''not'' [[ClassSelector ''unused'']]]])
            [Declaration ''color:red'']]
   \<and> parseCSS \<lparr>classnames = [(''used'', 1)], prototype_count = False\<rparr>
     [Rule (SelectorList [[OtherComponent ''TypeSelector'' ''a'',
                           PseudoClassSelector ''not'' [[ClassSelector ''unused'']]]])
        [Declaration ''color:red'']]
   = Inl UnusedClassSelector
   \<and> parseAndTrackCSSNodes [(''used'', Num 1)]
     [Rule (SelectorList [[OtherComponent ''TypeSelector'' ''a'',
                           PseudoClassSelector ''not'' [[ClassSelector ''unused'']]]])
        [Declaration ''color:red'']]
   = Inl UnusedClassSelector"
  by code_simp

section \<open>Properties of the rename planner and of the CSS rewrite\<close>

lemma assigned_walk_rename:
  assumes a: "assigned ranking (fst st)" and i: "i < length ranking"
  shows "assigned ranking (fst (walk_rename i (name (ranking ! i)) st))"
proof -
  obtain r ast where st: "st = (r, ast)" by (cases st)
  have "(k = ''classnames'' \<and> v = Object) \<or>
        (\<exists>j < length ranking. k = name (ranking ! j) \<and> v = Str (generateShortestName j))"
    if "(k, v) \<in> set (set_property (name (ranking ! i)) (Str (generateShortestName i)) r)"
    for k v
  proof -
    from that have "(k, v) = (name (ranking ! i), Str (generateShortestName i)) \<or> (k, v) \<in> set r"
      using set_set_property by fastforce
    then show ?thesis
      using a i unfolding assigned_def st by auto
  qed
  then have "assigned ranking (set_property (name (ranking ! i)) (Str (generateShortestName i)) r)"
    unfolding assigned_def by blast
  with a show ?thesis by (simp add: walk_rename_def st)
qed

lemma assigned_processCSS_loop:
  "assigned ranking (fst st) \<Longrightarrow> rest = drop i ranking \<Longrightarrow>
   assigned ranking (fst (processCSS_loop i rest st))"
proof (induction rest arbitrary: i st)
  case Nil
  then show ?case by simp
next
  case (Cons sel rest)
  from Cons.prems(2) have i: "i < length ranking"
    by (metis drop_eq_Nil list.distinct(1) not_le)
  from Cons.prems(2) i have sel: "sel = ranking ! i" and rest: "rest = drop (i + 1) ranking"
    by (metis Cons_nth_drop_Suc list.inject, metis Cons_nth_drop_Suc Suc_eq_plus1 list.inject)
  have "assigned ranking (fst (walk_rename i (name sel) st))"
    unfolding sel using Cons.prems(1) i by (rule assigned_walk_rename)
  from Cons.IH [OF this rest] show ?case by simp
qed

lemma assigned_processCSS:
  "assigned ranking r \<Longrightarrow> assigned ranking (fst (processCSS ranking r ast))"
  unfolding processCSS_def by (rule assigned_processCSS_loop) simp_all

lemma assigned_process_css_files:
  "assigned ranking r \<Longrightarrow> assigned ranking (fst (process_css_files ranking r asts))"
proof (induction asts arbitrary: r)
  case Nil
  then show ?case by simp
next
  case (Cons f fs)
  obtain r' ast where p: "processCSS ranking r f = (r', ast)" by (cases "processCSS ranking r f")
  have "assigned ranking r'" using assigned_processCSS [OF Cons.prems, of f] p by simp
  from Cons.IH [OF this] p show ?case by (auto split: prod.splits)
qed

lemma assignedD:
  "assigned ranking r \<Longrightarrow> (k, v) \<in> set r \<Longrightarrow>
     (k = ''classnames'' \<and> v = Object) \<or>
     (\<exists>i < length ranking. k = name (ranking ! i) \<and> v = Str (generateShortestName i))"
  unfolding assigned_def by (drule bspec, assumption) simp

lemma assigned_inj:
  assumes "assigned ranking r" "map_of r k1 = Some v" "map_of r k2 = Some v"
  shows "k1 = k2"
proof -
  from assms(2,3) have m: "(k1, v) \<in> set r" "(k2, v) \<in> set r"
    by (auto dest: map_of_SomeD)
  note d1 = assignedD [OF assms(1) m(1)] and d2 = assignedD [OF assms(1) m(2)]
  show ?thesis
  proof (cases v)
    case (Str s)
    from d1 Str obtain i where i: "k1 = name (ranking ! i)" "s = generateShortestName i"
      by blast
    from d2 Str obtain j where j: "k2 = name (ranking ! j)" "s = generateShortestName j"
      by blast
    from i(2) j(2) have "i = j" by (intro generateShortestName_inj) simp
    with i(1) j(1) show ?thesis by simp
  next
    case Object
    with d1 d2 show ?thesis by blast
  qed
qed

text \<open>
  Claim C2. The rename map is injective on its own properties: two names with the same
  entry are the same name. This holds for the map that the CSS rewrite pass builds from
  the initial \<^verbatim>\<open>{ classnames: {} }\<close> for any ranking and any list of CSS trees, and so for the
  map at the end of every \<^verbatim>\<open>rip\<close> that returns.
\<close>

theorem rename_injective:
  "(process_css_files ranking [(''classnames'', Object)] asts = (rename, asts') \<longrightarrow>
      inj_on (map_of rename) (dom (map_of rename)))
   \<and> (rip_run pc htmlFiles cssFiles = Inr s \<longrightarrow>
      inj_on (map_of (final_rename s)) (dom (map_of (final_rename s))))"
proof -
  have init: "assigned rk [(''classnames'', Object)]" for rk
    by (simp add: assigned_def)
  have inj: "inj_on (map_of r) (dom (map_of r))" if "assigned rk r" for rk r
    by (rule inj_onI) (use that in \<open>auto dest: assigned_inj\<close>)
  have 1: "inj_on (map_of rename) (dom (map_of rename))"
    if "process_css_files ranking [(''classnames'', Object)] asts = (rename, asts')"
    using assigned_process_css_files [OF init, of ranking asts] that by (auto intro: inj)
  have 2: "inj_on (map_of (final_rename s)) (dom (map_of (final_rename s)))"
    if run: "rip_run pc htmlFiles cssFiles = Inr s"
  proof -
    let ?h1 = "fold (\<lambda>f h. parseHTMLNodeChildren h f) htmlFiles
                 \<lparr>classnames = [], prototype_count = pc\<rparr>"
    from run obtain asts0 h2 where p: "parse_css_files ?h1 cssFiles = Inr (asts0, h2)"
      unfolding rip_run_def Let_def by (cases "parse_css_files ?h1 cssFiles") auto
    let ?rk = "sortedClassnames (classnames h2)"
    obtain r asts1 where q: "process_css_files ?rk [(''classnames'', Object)] asts0 = (r, asts1)"
      by (cases "process_css_files ?rk [(''classnames'', Object)] asts0")
    from run p q have "final_rename s = r"
      unfolding rip_run_def Let_def by auto
    moreover have "assigned ?rk r"
      using assigned_process_css_files [OF init, of ?rk asts0] q by simp
    ultimately show ?thesis by (auto intro: inj)
  qed
  from 1 2 show ?thesis by blast
qed

text \<open>
  A witness: the end-to-end scenario of the specification, and one CSS file under a
  ranking of one name.
\<close>

theorem rename_injective_witness:
  "rip_run False
     [HTMLNode (Some []) None
        [HTMLNode (Some [''header'', ''header'']) (Some ''header header'')
           [HTMLNode (Some [''header'', ''text'']) (Some ''header text'') [HTMLNode None None []]]]]
     [[Rule (SelectorList [[ClassSelector ''header'']]) [Declaration ''color:blue''],
       Rule (SelectorList [[ClassSelector ''unused'']]) [Declaration ''color:red''],
       Rule (SelectorList [[ClassSelector ''text'']]) [Declaration ''font-size:1em'']]]
   = Inr \<lparr>final_classnames = [(''header'', 4), (''text'', 2)],
          final_sorted = [\<lparr>name = ''header'', total = 24\<rparr>, \<lparr>name = ''text'', total = 8\<rparr>],
          final_rename = [(''classnames'', Object), (''header'', Str ''a''), (''text'', Str ''b'')],
          html = [HTMLNode (Some []) None
                    [HTMLNode (Some [''header'', ''header'']) (Some ''a a'')
                       [HTMLNode (Some [''header'', ''text'']) (Some ''a b'') [HTMLNode None None []]]]],
          css = [[Rule (SelectorList [[ClassSelector ''a'']]) [Declaration ''color:blue''],
                  Rule (SelectorList [[ClassSelector ''b'']]) [Declaration ''font-size:1em'']]]\<rparr>
   \<and> inj_on (map_of [(''classnames'', Object), (''header'', Str ''a''), (''text'', Str ''b'')])
        (dom (map_of [(''classnames'', Object), (''header'', Str ''a''), (''text'', Str ''b'')]))
   \<and> process_css_files [\<lparr>name = ''header'', total = 24\<rparr>] [(''classnames'', Object)]
        [[Rule (SelectorList [[ClassSelector ''header'']]) []]]
      = ([(''classnames'', Object), (''header'', Str ''a'')],
         [[Rule (SelectorList [[ClassSelector ''a'']]) []]])
   \<and> inj_on (map_of [(''classnames'', Object), (''header'', Str ''a'')])
        (dom (map_of [(''classnames'', Object), (''header'', Str ''a'')]))"
proof -
  let ?html = "[HTMLNode (Some []) None
        [HTMLNode (Some [''header'', ''header'']) (Some ''header header'')
           [HTMLNode (Some [''header'', ''text'']) (Some ''header text'') [HTMLNode None None []]]]]"
  let ?css = "[[Rule (SelectorList [[ClassSelector ''header'']]) [Declaration ''color:blue''],
       Rule (SelectorList [[ClassSelector ''unused'']]) [Declaration ''color:red''],
       Rule (SelectorList [[ClassSelector ''text'']]) [Declaration ''font-size:1em'']]]"
  let ?s = "\<lparr>final_classnames = [(''header'', 4), (''text'', 2)],
          final_sorted = [\<lparr>name = ''header'', total = 24\<rparr>, \<lparr>name = ''text'', total = 8\<rparr>],
          final_rename = [(''classnames'', Object), (''header'', Str ''a''), (''text'', Str ''b'')],
          html = [HTMLNode (Some []) None
                    [HTMLNode (Some [''header'', ''header'']) (Some ''a a'')
                       [HTMLNode (Some [''header'', ''text'']) (Some ''a b'') [HTMLNode None None []]]]],
          css = [[Rule (SelectorList [[ClassSelector ''a'']]) [Declaration ''color:blue''],
                  Rule (SelectorList [[ClassSelector ''b'']]) [Declaration ''font-size:1em'']]]\<rparr>"
  have run: "rip_run False ?html ?css = Inr ?s"
    by code_simp
  have p: "process_css_files [\<lparr>name = ''header'', total = 24\<rparr>] [(''classnames'', Object)]
        [[Rule (SelectorList [[ClassSelector ''header'']]) []]]
      = ([(''classnames'', Object), (''header'', Str ''a'')],
         [[Rule (SelectorList [[ClassSelector ''a'']]) []]])"
    by code_simp
  from rename_injective [of "[\<lparr>name = ''header'', total = 24\<rparr>]"
      "[[Rule (SelectorList [[ClassSelector ''header'']]) []]]"
      "[(''classnames'', Object), (''header'', Str ''a'')]"
      "[[Rule (SelectorList [[ClassSelector ''a'']]) []]]" False ?html ?css ?s] run p
  show ?thesis by simp
qed

lemma concat_map_map:
  assumes "\<And>c. c \<in> set s \<Longrightarrow> g c = map f (h c)"
  shows "concat (map g s) = map f (concat (map h s))"
  using assms by (induction s) simp_all

lemma concat_concat_map_map:
  assumes "\<And>s c. s \<in> set xss \<Longrightarrow> c \<in> set s \<Longrightarrow> g c = map f (h c)"
  shows "concat (map (\<lambda>s. concat (map g s)) xss) = map f (concat (map (\<lambda>s. concat (map h s)) xss))"
  using assms
proof (induction xss)
  case Nil
  then show ?case by simp
next
  case (Cons s xss)
  have "concat (map g s) = map f (concat (map h s))"
    by (rule concat_map_map, rule Cons.prems [of s]) simp_all
  moreover have "concat (map (\<lambda>s. concat (map g s)) xss)
      = map f (concat (map (\<lambda>s. concat (map h s)) xss))"
    by (rule Cons.IH, rule Cons.prems) simp_all
  ultimately show ?case by simp
qed

lemma component_class_names_rename:
  "component_class_names (rename_component sel new c) =
     map (\<lambda>n. if cleanCSSIdentifier n \<noteq> sel then n else new) (component_class_names c)"
proof (induction c)
  case (PseudoClassSelector n sels)
  have "concat (map (\<lambda>s. concat (map (\<lambda>c. component_class_names (rename_component sel new c)) s)) sels)
      = map (\<lambda>n. if cleanCSSIdentifier n \<noteq> sel then n else new)
          (concat (map (\<lambda>s. concat (map component_class_names s)) sels))"
    by (rule concat_concat_map_map) (rule PseudoClassSelector.IH)
  then show ?case
    by (simp add: o_def)
qed simp_all

lemma selector_class_names_rename:
  "selector_class_names (map (rename_component sel new) s) =
     map (\<lambda>n. if cleanCSSIdentifier n \<noteq> sel then n else new) (selector_class_names s)"
  by (induction s) (simp_all add: selector_class_names_def component_class_names_rename)

lemma prelude_class_names_rename:
  "prelude_class_names (rename_prelude sel new p) =
     map (\<lambda>n. if cleanCSSIdentifier n \<noteq> sel then n else new) (prelude_class_names p)"
proof (cases p)
  case (SelectorList sels)
  show ?thesis unfolding SelectorList
    by (induction sels) (simp_all add: selector_class_names_rename)
qed simp_all

lemma class_names_rename:
  "class_names (rename_nodes sel new ast) =
     map (\<lambda>n. if cleanCSSIdentifier n \<noteq> sel then n else new) (class_names ast)"
  by (induction sel new ast rule: rename_nodes.induct)
     (simp_all add: prelude_class_names_rename)

lemma processCSS_loop_assigns:
  assumes "distinct (map name ranking)" "i < length ranking" "name (ranking ! i) \<noteq> ''__proto__''"
  shows "rest = drop i0 ranking \<Longrightarrow>
     (if i0 \<le> i then name (ranking ! i) \<in> set (map cleanCSSIdentifier (class_names ast))
      else map_of r (name (ranking ! i)) = Some (Str (generateShortestName i))) \<Longrightarrow>
     map_of (fst (processCSS_loop i0 rest (r, ast))) (name (ranking ! i))
       = Some (Str (generateShortestName i))"
proof (induction rest arbitrary: i0 r ast)
  case Nil
  then have "length ranking \<le> i0" by simp
  with assms(2) Nil show ?case by simp
next
  case (Cons sel rest)
  let ?k = "name (ranking ! i)"
  from Cons.prems(1) have i0: "i0 < length ranking"
    by (metis drop_eq_Nil list.distinct(1) not_le)
  from Cons.prems(1) i0 have sel: "sel = ranking ! i0" and rest: "rest = drop (i0 + 1) ranking"
    by (metis Cons_nth_drop_Suc list.inject, metis Cons_nth_drop_Suc Suc_eq_plus1 list.inject)
  have ne: "i0 \<noteq> i \<Longrightarrow> name sel \<noteq> ?k"
    using assms(1,2) i0 unfolding sel
    by (metis distinct_conv_nth length_map nth_map)
  obtain r' ast' where w: "walk_rename i0 (name sel) (r, ast) = (r', ast')"
    by (cases "walk_rename i0 (name sel) (r, ast)")
  have "if i0 + 1 \<le> i then ?k \<in> set (map cleanCSSIdentifier (class_names ast'))
        else map_of r' ?k = Some (Str (generateShortestName i))"
  proof (cases "i0 < i")
    case True
    then have k: "?k \<in> set (map cleanCSSIdentifier (class_names ast))" and n: "name sel \<noteq> ?k"
      using Cons.prems(2) ne by simp_all
    then obtain c where c: "c \<in> set (class_names ast)" "cleanCSSIdentifier c = ?k" by auto
    have "?k \<in> set (map cleanCSSIdentifier (class_names ast'))"
    proof (cases "name sel \<in> set (map cleanCSSIdentifier (class_names ast))")
      case True
      with w have "ast' = rename_nodes (name sel) (generateShortestName i0) ast"
        by (simp add: walk_rename_def)
      with c n show ?thesis
        by (force simp: class_names_rename image_iff)
    next
      case False
      with w k show ?thesis by (simp add: walk_rename_def)
    qed
    with True show ?thesis by simp
  next
    case False
    note nlt = this
    show ?thesis
    proof (cases "i0 = i")
      case True
      with Cons.prems(2) sel w assms(3) show ?thesis
        by (auto simp: walk_rename_def map_of_set_property)
    next
      case False
      with nlt have "i < i0" by simp
      with Cons.prems(2) w ne [OF False] show ?thesis
        by (auto simp: walk_rename_def map_of_set_property_other split: if_splits)
    qed
  qed
  from Cons.IH [OF rest this] w show ?case by simp
qed

lemma processCSS_assigns:
  assumes "distinct (map name ranking)" "i < length ranking" "name (ranking ! i) \<noteq> ''__proto__''"
    "name (ranking ! i) \<in> set (map cleanCSSIdentifier (class_names ast))"
  shows "map_of (fst (processCSS ranking rename ast)) (name (ranking ! i))
       = Some (Str (generateShortestName i))"
  unfolding processCSS_def
  by (rule processCSS_loop_assigns [OF assms(1-3)]) (use assms(4) in simp_all)

lemma set_object_entries: "set (object_entries obj) = set obj"
  by (auto simp: object_entries_def)

lemma length_object_entries: "length (object_entries obj) = length obj"
  by (simp add: object_entries_def sum_length_filter_compl)

lemma sortedClassnames_set:
  "set (sortedClassnames cn) = (\<lambda>(n, c). \<lparr>name = n, total = length n * c\<rparr>) ` set cn"
  by (simp add: sortedClassnames_def set_object_entries)

lemma sortedClassnames_length: "length (sortedClassnames cn) = length cn"
  by (simp add: sortedClassnames_def length_object_entries)

lemma sortedClassnames_descending:
  "i \<le> j \<Longrightarrow> j < length (sortedClassnames cn) \<Longrightarrow>
     total (sortedClassnames cn ! j) \<le> total (sortedClassnames cn ! i)"
proof -
  assume ij: "i \<le> j" "j < length (sortedClassnames cn)"
  have "sorted (map (\<lambda>e. - int (total e)) (sortedClassnames cn))"
    unfolding sortedClassnames_def by (rule sorted_sort_key)
  then have "map (\<lambda>e. - int (total e)) (sortedClassnames cn) ! i
           \<le> map (\<lambda>e. - int (total e)) (sortedClassnames cn) ! j"
    using ij by (intro sorted_nth_mono) simp_all
  with ij show ?thesis by simp
qed

lemma distinct_object_entries:
  "distinct (map fst obj) \<Longrightarrow> distinct (map fst (object_entries obj))"
proof -
  assume d: "distinct (map fst obj)"
  let ?P = "\<lambda>p. is_array_index (fst p)"
  have inj: "inj_on fst (set obj)" and dobj: "distinct obj"
    using d by (simp_all add: distinct_map)
  have "distinct (object_entries obj)"
    using dobj by (auto simp: object_entries_def)
  moreover have "inj_on fst (set (object_entries obj))"
    using inj by (simp add: set_object_entries)
  ultimately show ?thesis by (simp add: distinct_map)
qed

lemma distinct_sortedClassnames:
  "distinct (map fst cn) \<Longrightarrow> distinct (map name (sortedClassnames cn))"
proof -
  assume "distinct (map fst cn)"
  then have d: "distinct (map fst (object_entries cn))" by (rule distinct_object_entries)
  let ?g = "\<lambda>(n, c). \<lparr>name = n, total = length n * c\<rparr>"
  have n: "map name (map ?g (object_entries cn)) = map fst (object_entries cn)"
    by (simp add: o_def split_def)
  let ?xs = "map ?g (object_entries cn)"
  have dn: "distinct (map name ?xs)" unfolding n by (rule d)
  then have "distinct ?xs" "inj_on name (set ?xs)" by (simp_all only: distinct_map)
  then have "distinct (sort_key (\<lambda>e. - int (total e)) ?xs)"
    "inj_on name (set (sort_key (\<lambda>e. - int (total e)) ?xs))"
    by simp_all
  then show ?thesis unfolding sortedClassnames_def by (simp only: distinct_map)
qed

text \<open>
  Claim C4. The ranking holds one entry per classname, its total the name length times
  the count, in descending order of total; the CSS rewrite gives the name at rank \<open>i\<close>, when
  it occurs in the tree, the short name of index \<open>i\<close>. For the counts \<^verbatim>\<open>x: 10\<close> and
  \<^verbatim>\<open>longname: 3\<close> the totals are 10 and 24, \<^verbatim>\<open>longname\<close> ranks first and receives \<^verbatim>\<open>a\<close>, and
  \<^verbatim>\<open>x\<close> receives \<^verbatim>\<open>b\<close>.
\<close>

theorem rename_planner_ranking:
  "set (sortedClassnames cn) = (\<lambda>(n, c). \<lparr>name = n, total = length n * c\<rparr>) ` set cn
   \<and> length (sortedClassnames cn) = length cn
   \<and> (i \<le> j \<and> j < length (sortedClassnames cn) \<longrightarrow>
        total (sortedClassnames cn ! j) \<le> total (sortedClassnames cn ! i))
   \<and> (distinct (map fst cn) \<and> i < length (sortedClassnames cn)
        \<and> name (sortedClassnames cn ! i) \<noteq> ''__proto__''
        \<and> name (sortedClassnames cn ! i) \<in> set (map cleanCSSIdentifier (class_names ast)) \<longrightarrow>
        map_of (fst (processCSS (sortedClassnames cn) rename ast)) (name (sortedClassnames cn ! i))
          = Some (Str (generateShortestName i)))
   \<and> sortedClassnames [(''x'', 10), (''longname'', 3)] =
        [\<lparr>name = ''longname'', total = 24\<rparr>, \<lparr>name = ''x'', total = 10\<rparr>]
   \<and> processCSS [\<lparr>name = ''longname'', total = 24\<rparr>, \<lparr>name = ''x'', total = 10\<rparr>]
        [(''classnames'', Object)]
        [Rule (SelectorList [[ClassSelector ''x''], [ClassSelector ''longname'']]) []]
      = ([(''classnames'', Object), (''longname'', Str ''a''), (''x'', Str ''b'')],
         [Rule (SelectorList [[ClassSelector ''b''], [ClassSelector ''a'']]) []])"
proof -
  have ex1: "sortedClassnames [(''x'', 10), (''longname'', 3)] =
        [\<lparr>name = ''longname'', total = 24\<rparr>, \<lparr>name = ''x'', total = 10\<rparr>]"
    by code_simp
  have ex2: "processCSS [\<lparr>name = ''longname'', total = 24\<rparr>, \<lparr>name = ''x'', total = 10\<rparr>]
        [(''classnames'', Object)]
        [Rule (SelectorList [[ClassSelector ''x''], [ClassSelector ''longname'']]) []]
      = ([(''classnames'', Object), (''longname'', Str ''a''), (''x'', Str ''b'')],
         [Rule (SelectorList [[ClassSelector ''b''], [ClassSelector ''a'']]) []])"
    by code_simp
  show ?thesis
    using sortedClassnames_set [of cn] sortedClassnames_length [of cn]
      sortedClassnames_descending [of i j cn]
      processCSS_assigns [OF distinct_sortedClassnames, of cn i ast rename] ex1 ex2
    by blast
qed

text \<open>
  A witness: the counts of the end-to-end scenario, ranks 0 and 1.
\<close>

theorem rename_planner_ranking_witness:
  "sortedClassnames [(''header'', 4), (''text'', 2)]
     = [\<lparr>name = ''header'', total = 24\<rparr>, \<lparr>name = ''text'', total = 8\<rparr>]
   \<and> total ([\<lparr>name = ''header'', total = 24\<rparr>, \<lparr>name = ''text'', total = 8\<rparr>] ! 1)
       \<le> total ([\<lparr>name = ''header'', total = 24\<rparr>, \<lparr>name = ''text'', total = 8\<rparr>] ! 0)
   \<and> map_of (fst (processCSS (sortedClassnames [(''header'', 4), (''text'', 2)])
         [(''classnames'', Object)]
         [Rule (SelectorList [[ClassSelector ''header'']]) [Declaration ''color:blue''],
          Rule (SelectorList [[ClassSelector ''text'']]) [Declaration ''font-size:1em'']]))
       ''text''
     = Some (Str ''b'')"
proof -
  let ?cn = "[(''header'', 4::nat), (''text'', 2)]"
  let ?ast = "[Rule (SelectorList [[ClassSelector ''header'']]) [Declaration ''color:blue''],
          Rule (SelectorList [[ClassSelector ''text'']]) [Declaration ''font-size:1em'']]"
  have s: "sortedClassnames ?cn
     = [\<lparr>name = ''header'', total = 24\<rparr>, \<lparr>name = ''text'', total = 8\<rparr>]"
    by code_simp
  have h1: "(0::nat) \<le> 1 \<and> 1 < length (sortedClassnames ?cn)"
    unfolding s by simp
  have h2: "distinct (map fst ?cn) \<and> 1 < length (sortedClassnames ?cn)
        \<and> name (sortedClassnames ?cn ! 1) \<noteq> ''__proto__''
        \<and> name (sortedClassnames ?cn ! 1) \<in> set (map cleanCSSIdentifier (class_names ?ast))"
    unfolding s by (simp add: selector_class_names_def cleanCSSIdentifier_def)
  have g: "generateShortestName 1 = ''b''"
    by (simp add: generateShortestName_nth ascii_letters)
  from rename_planner_ranking [of ?cn 0 1 ?ast "[(''classnames'', Object)]"] h1
  have "total (sortedClassnames ?cn ! 1) \<le> total (sortedClassnames ?cn ! 0)"
    by blast
  moreover
  from rename_planner_ranking [of ?cn 1 1 ?ast "[(''classnames'', Object)]"] h2
  have "map_of (fst (processCSS (sortedClassnames ?cn) [(''classnames'', Object)] ?ast))
          (name (sortedClassnames ?cn ! 1)) = Some (Str (generateShortestName 1))"
    by blast
  ultimately show ?thesis
    using s g by simp
qed

section \<open>Properties of the HTML rewrite\<close>

lemma html_nodes_process:
  "m \<in> set (html_nodes (processHTMLNodeChildren pc rename n)) \<Longrightarrow>
   classNames m = Some cs \<Longrightarrow> cs \<noteq> [] \<Longrightarrow>
   class_attr m = Some (join (map (replace_classname pc rename) cs))"
proof (induction n arbitrary: m)
  case (HTMLNode cn a ch)
  from HTMLNode.prems(1) consider
    (root) "m = processHTMLNodeChildren pc rename (HTMLNode cn a ch)"
    | (child) c where "c \<in> set ch" "m \<in> set (html_nodes (processHTMLNodeChildren pc rename c))"
    by auto
  then show ?case
  proof cases
    case root
    with HTMLNode.prems(2,3) show ?thesis by (auto simp: Let_def)
  next
    case child
    with HTMLNode.IH HTMLNode.prems(2,3) show ?thesis by blast
  qed
qed

lemma classNames_process:
  "map classNames (html_nodes (processHTMLNodeChildren pc rename n)) = map classNames (html_nodes n)"
proof (induction n)
  case (HTMLNode cn a ch)
  have "map (\<lambda>c. map classNames (html_nodes (processHTMLNodeChildren pc rename c))) ch
      = map (\<lambda>c. map classNames (html_nodes c)) ch"
    by (rule map_cong [OF refl]) (rule HTMLNode.IH)
  then have "concat (map (\<lambda>c. map classNames (html_nodes (processHTMLNodeChildren pc rename c))) ch)
      = concat (map (\<lambda>c. map classNames (html_nodes c)) ch)"
    by (rule arg_cong)
  then show ?case
    by (simp add: map_concat o_def)
qed

lemma replace_classname_absent: "\<not> js_in pc rename c \<Longrightarrow> replace_classname pc rename c = c"
  by (simp add: replace_classname_def)

text \<open>
  Claim C10. In the rewritten tree every element with a non-empty token list has as its
  class attribute the tokens, each replaced by the callback, joined by single spaces,
  whatever the attribute was before; when no token is \<^verbatim>\<open>in\<close> the rename map this is the
  original tokens joined by single spaces. The rewrite changes no token list and no other
  node.
\<close>

theorem processHTMLNodeChildren_class_attr:
  "(\<forall>m \<in> set (html_nodes (processHTMLNodeChildren pc rename n)). \<forall>cs.
      classNames m = Some cs \<and> cs \<noteq> [] \<longrightarrow>
        class_attr m = Some (join (map (replace_classname pc rename) cs))
        \<and> ((\<forall>c \<in> set cs. \<not> js_in pc rename c) \<longrightarrow> class_attr m = Some (join cs)))
   \<and> map classNames (html_nodes (processHTMLNodeChildren pc rename n)) = map classNames (html_nodes n)"
proof -
  have "class_attr m = Some (join cs)"
    if "m \<in> set (html_nodes (processHTMLNodeChildren pc rename n))"
      "classNames m = Some cs" "cs \<noteq> []" "\<forall>c \<in> set cs. \<not> js_in pc rename c" for m cs
  proof -
    have "map (replace_classname pc rename) cs = cs"
      using that(4) by (simp add: replace_classname_absent map_idI)
    with html_nodes_process [OF that(1-3)] show ?thesis by simp
  qed
  then show ?thesis
    using html_nodes_process classNames_process by blast
qed

text \<open>
  A witness: the attribute \<^verbatim>\<open>class="a   b"\<close>, whose tokens have no entry, becomes
  \<^verbatim>\<open>class="a b"\<close>.
\<close>

theorem processHTMLNodeChildren_class_attr_witness:
  "processHTMLNodeChildren False [(''classnames'', Object)]
     (HTMLNode (Some []) None [HTMLNode (Some [''a'', ''b'']) (Some ''a   b'') []])
   = HTMLNode (Some []) None [HTMLNode (Some [''a'', ''b'']) (Some ''a b'') []]
   \<and> class_attr (HTMLNode (Some [''a'', ''b'']) (Some ''a b'') []) = Some (join [''a'', ''b''])"
proof -
  let ?n = "HTMLNode (Some []) None [HTMLNode (Some [''a'', ''b'']) (Some ''a   b'') []]"
  let ?m = "HTMLNode (Some [''a'', ''b'']) (Some ''a b'') []"
  have e: "processHTMLNodeChildren False [(''classnames'', Object)] ?n
         = HTMLNode (Some []) None [?m]"
    by code_simp
  have m: "?m \<in> set (html_nodes (processHTMLNodeChildren False [(''classnames'', Object)] ?n))"
    unfolding e by simp
  have a: "\<forall>c \<in> set [''a'', ''b'']. \<not> js_in False [(''classnames'', Object)] c"
    by code_simp
  from processHTMLNodeChildren_class_attr [of False "[(''classnames'', Object)]" ?n] m a
  have "class_attr ?m = Some (join [''a'', ''b''])"
    by (metis html_node.sel(1) list.distinct(1))
  with e show ?thesis by simp
qed

text \<open>
  Claim C6 fails on the code: the test \<^verbatim>\<open>c in rename\<close> is also true for a token that has been
  given no short name. \<^verbatim>\<open>rename\<close> starts as \<^verbatim>\<open>{ classnames: {} }\<close> and is itself used as the
  map, so the token \<^verbatim>\<open>classnames\<close> is replaced by that object, written \<^verbatim>\<open>[object Object]\<close>;
  and the token \<^verbatim>\<open>constructor\<close>, of which \<^verbatim>\<open>rename\<close> has no property of its own, is replaced
  by the function that \<^verbatim>\<open>rename\<close> inherits under that name.
\<close>

theorem processHTMLNodeChildren_classnames_token:
  "processHTMLNodeChildren False [(''classnames'', Object), (''header'', Str ''a'')]
     (HTMLNode (Some [''classnames'', ''header'']) (Some ''classnames header'') [])
   = HTMLNode (Some [''classnames'', ''header'']) (Some ''[object Object] a'') []
   \<and> processHTMLNodeChildren False [(''classnames'', Object), (''header'', Str ''a'')]
     (HTMLNode (Some [''constructor'', ''header'']) (Some ''constructor header'') [])
   = HTMLNode (Some [''constructor'', ''header''])
       (Some ''function Object() { [native code] } a'') []"
  by code_simp

text \<open>
  Claim C8 fails on the code: the CSS rewrite renames the class selectors in place, one
  rank after the other, so a selector that has received the short name \<^verbatim>\<open>a\<close> is taken for
  the classname \<^verbatim>\<open>a\<close> at a later rank. With the HTML classes \<^verbatim>\<open>longname\<close> and \<^verbatim>\<open>a\<close> and
  the CSS \<^verbatim>\<open>.longname { color: red }\<close>, the classname \<^verbatim>\<open>a\<close>, which no CSS selector names,
  receives the entry \<^verbatim>\<open>b\<close> and is rewritten in the HTML.
\<close>

theorem rip_renames_html_only_classname:
  "rip_run False
     [HTMLNode (Some []) None
        [HTMLNode (Some [''longname'']) (Some ''longname'') [],
         HTMLNode (Some [''a'']) (Some ''a'') []]]
     [[Rule (SelectorList [[ClassSelector ''longname'']]) [Declaration ''color:red'']]]
   = Inr \<lparr>final_classnames = [(''longname'', 2), (''a'', 1)],
          final_sorted = [\<lparr>name = ''longname'', total = 16\<rparr>, \<lparr>name = ''a'', total = 1\<rparr>],
          final_rename = [(''classnames'', Object), (''longname'', Str ''a''), (''a'', Str ''b'')],
          html = [HTMLNode (Some []) None
                    [HTMLNode (Some [''longname'']) (Some ''a'') [],
                     HTMLNode (Some [''a'']) (Some ''b'') []]],
          css = [[Rule (SelectorList [[ClassSelector ''b'']]) [Declaration ''color:red'']]]\<rparr>"
  by code_simp

end
